theory Spec2Isabelle
  imports Complex_Main "HOL-Library.Multiset" "HOL-Library.Log_Nat"
begin

section \<open>The Schelling segregation model of schelling.py\<close>

text \<open>
  Python integers are \<open>int\<close>. A coordinate is a pair of integers, as the tuples of the
  source are. A Python float is the rational number it denotes: the tolerance and the
  probabilities are given by their exact values, and the quotient of two counts in
  \<open>similarity\<close> is rounded to the nearest binary64 number, as the division of the source
  is. An uncaught Python exception is the \<open>Inl\<close> branch of a sum, so every raise of the
  source is a branch of the model.
\<close>

datatype py_error = IndexError | ZeroDivisionError | ValueError | OverflowError

type_synonym coord = "int \<times> int"

subsection \<open>find_neighbors\<close>

text \<open>
  \<open>range(a, b)\<close> of Python: the integers from \<open>a\<close> up to \<open>b - 1\<close>, empty when
  \<open>b \<le> a\<close>.
\<close>

definition py_range :: "int \<Rightarrow> int \<Rightarrow> int list" where
  "py_range a b = [a..b - 1]"

text \<open>\<open>c in range(n)\<close>.\<close>

definition in_range :: "int \<Rightarrow> int \<Rightarrow> bool" where
  "in_range x n = (0 \<le> x \<and> x < n)"

text \<open>
  The square of candidates that \<open>itertools.product\<close> walks: the first component is the
  outer loop, the second the inner one.
\<close>

definition square :: "coord \<Rightarrow> int \<Rightarrow> coord list" where
  "square xy neighbor_size =
     List.product (py_range (fst xy - neighbor_size) (fst xy + neighbor_size + 1))
                  (py_range (snd xy - neighbor_size) (snd xy + neighbor_size + 1))"

text \<open>The generator, as the list of what it yields, in the order it yields it.\<close>

definition find_neighbors :: "coord \<Rightarrow> int \<Rightarrow> int \<Rightarrow> int \<Rightarrow> coord list" where
  "find_neighbors xy n_rows n_cols neighbor_size =
     filter (\<lambda>c. c \<noteq> xy \<and> in_range (fst c) n_rows \<and> in_range (snd c) n_cols)
            (square xy neighbor_size)"

text \<open>Lexicographic (row-major) order on coordinates.\<close>

definition lex_less :: "coord \<Rightarrow> coord \<Rightarrow> bool" where
  "lex_less a b = (fst a < fst b \<or> (fst a = fst b \<and> snd a < snd b))"

text \<open>A candidate of the square is clipped when it lies outside the grid.\<close>

definition clipped :: "int \<Rightarrow> int \<Rightarrow> coord \<Rightarrow> bool" where
  "clipped n_rows n_cols c = (\<not> (in_range (fst c) n_rows \<and> in_range (snd c) n_cols))"

subsection \<open>The grid\<close>

text \<open>
  A two-dimensional numpy array of integers: its shape and its cells in row-major order
  (the C layout numpy uses). Cell \<open>(i, j)\<close> of an array of shape \<open>(m, n)\<close> is
  element \<open>i * n + j\<close> of the data.
\<close>

record ndarray =
  shape :: "int \<times> int"
  data :: "int list"

definition wf_grid :: "ndarray \<Rightarrow> bool" where
  "wf_grid g = (0 \<le> fst (shape g) \<and> 0 \<le> snd (shape g) \<and>
                int (length (data g)) = fst (shape g) * snd (shape g))"

text \<open>
  An index of numpy along an axis of length \<open>n\<close>: a negative index counts from the end,
  and an index outside \<open>[-n, n)\<close> raises IndexError.
\<close>

definition norm_index :: "int \<Rightarrow> int \<Rightarrow> py_error + int" where
  "norm_index i n =
     (let k = (if i < 0 then i + n else i)
      in if 0 \<le> k \<and> k < n then Inr k else Inl IndexError)"

definition flat_index :: "ndarray \<Rightarrow> coord \<Rightarrow> py_error + nat" where
  "flat_index g c =
     (case norm_index (fst c) (fst (shape g)) of
        Inl e \<Rightarrow> Inl e
      | Inr i \<Rightarrow>
          (case norm_index (snd c) (snd (shape g)) of
             Inl e \<Rightarrow> Inl e
           | Inr j \<Rightarrow> Inr (nat (i * snd (shape g) + j))))"

text \<open>\<open>grid[c]\<close> for a tuple \<open>c\<close>.\<close>

definition getitem :: "ndarray \<Rightarrow> coord \<Rightarrow> py_error + int" where
  "getitem g c = (case flat_index g c of Inl e \<Rightarrow> Inl e | Inr k \<Rightarrow> Inr (data g ! k))"

text \<open>\<open>grid[c] = v\<close>: the array is mutated in place, so the model returns the new array.\<close>

definition setitem :: "ndarray \<Rightarrow> coord \<Rightarrow> int \<Rightarrow> py_error + ndarray" where
  "setitem g c v =
     (case flat_index g c of Inl e \<Rightarrow> Inl e | Inr k \<Rightarrow> Inr (g\<lparr>data := (data g)[k := v]\<rparr>))"

text \<open>\<open>[grid[k] for k in ks]\<close>: the first failing read aborts the comprehension.\<close>

fun getitems :: "ndarray \<Rightarrow> coord list \<Rightarrow> py_error + int list" where
  "getitems g [] = Inr []"
| "getitems g (k # ks) =
     (case getitem g k of
        Inl e \<Rightarrow> Inl e
      | Inr v \<Rightarrow> (case getitems g ks of Inl e \<Rightarrow> Inl e | Inr vs \<Rightarrow> Inr (v # vs)))"

subsection \<open>similarity\<close>

text \<open>
  True division \<open>a / b\<close> of two Python integers that are not negative. The result is the
  binary64 number nearest to the quotient, ties going to the even significand: with \<open>e\<close>
  the exponent of the quotient (\<open>2^e \<le> a / b < 2^(e + 1)\<close>, and at least \<open>-1022\<close>, below
  which the numbers are subnormal), the quotient is rounded to a multiple of \<open>2^(e - 52)\<close>.
  ZeroDivisionError when the divisor is zero, OverflowError when the rounded quotient
  reaches \<open>2^1024\<close>.
\<close>

definition pow2 :: "int \<Rightarrow> rat" where
  "pow2 e = (if 0 \<le> e then 2 ^ nat e else 1 / 2 ^ nat (- e))"

text \<open>
  The exponent of \<open>a / b\<close> for positive \<open>a\<close> and \<open>b\<close>: the difference of the bit lengths,
  or one less.
\<close>

definition floor_log2 :: "nat \<Rightarrow> nat \<Rightarrow> int" where
  "floor_log2 a b =
     (let d = int (floorlog 2 a) - int (floorlog 2 b)
      in if pow2 d \<le> of_nat a / of_nat b then d else d - 1)"

definition round_half_even :: "rat \<Rightarrow> int" where
  "round_half_even x =
     (let f = \<lfloor>x\<rfloor>; r = x - of_int f
      in if r < 1 / 2 then f
         else if 1 / 2 < r then f + 1
         else if even f then f else f + 1)"

definition round_double :: "nat \<Rightarrow> nat \<Rightarrow> rat" where
  "round_double a b =
     (if a = 0 then 0
      else
        (let e = max (floor_log2 a b) (- 1022);
             ulp = pow2 (e - 52)
         in of_int (round_half_even (of_nat a / of_nat b / ulp)) * ulp))"

text \<open>
  The rounded quotient reaches \<open>2^1024\<close> when its exponent is at least 1024, or is 1023
  with a significand that rounds up to \<open>2^53\<close>.
\<close>

definition overflows :: "nat \<Rightarrow> nat \<Rightarrow> bool" where
  "overflows a b =
     (a \<noteq> 0 \<and>
      (let e = floor_log2 a b
       in 1024 \<le> e \<or>
          (e = 1023 \<and> round_half_even (of_nat a / of_nat b / pow2 (e - 52)) = 2 ^ 53)))"

definition py_truediv :: "nat \<Rightarrow> nat \<Rightarrow> py_error + rat" where
  "py_truediv a b =
     (if b = 0 then Inl ZeroDivisionError
      else if overflows a b then Inl OverflowError
      else Inr (round_double a b))"

definition similarity :: "ndarray \<Rightarrow> coord \<Rightarrow> int \<Rightarrow> rat \<Rightarrow> py_error + bool" where
  "similarity grid xy neighbor_size tolerance =
     (case getitems grid (find_neighbors xy (fst (shape grid)) (snd (shape grid)) neighbor_size) of
        Inl e \<Rightarrow> Inl e
      | Inr neighborhood \<Rightarrow>
          (case getitem grid xy of
             Inl e \<Rightarrow> Inl e
           | Inr own \<Rightarrow>
               (case py_truediv (count_list neighborhood own) (length neighborhood) of
                  Inl e \<Rightarrow> Inl e
                | Inr cnt \<Rightarrow> Inr (cnt < tolerance))))"

text \<open>
  The quantities the relocation rule is stated with: the neighbours of a cell that hold the
  value the cell holds, all its neighbours, Empty ones included, and the fraction of the
  former among the latter as the division of the source measures it.
\<close>

definition cell :: "ndarray \<Rightarrow> coord \<Rightarrow> int" where
  "cell g c = data g ! nat (fst c * snd (shape g) + snd c)"

definition in_bounds :: "ndarray \<Rightarrow> coord \<Rightarrow> bool" where
  "in_bounds g c = (in_range (fst c) (fst (shape g)) \<and> in_range (snd c) (snd (shape g)))"

definition neighbours_of :: "ndarray \<Rightarrow> coord \<Rightarrow> int \<Rightarrow> coord list" where
  "neighbours_of g xy r = find_neighbors xy (fst (shape g)) (snd (shape g)) r"

definition same_type_count :: "ndarray \<Rightarrow> coord \<Rightarrow> int \<Rightarrow> nat" where
  "same_type_count g xy r = length (filter (\<lambda>c. cell g c = cell g xy) (neighbours_of g xy r))"

definition same_fraction :: "ndarray \<Rightarrow> coord \<Rightarrow> int \<Rightarrow> rat" where
  "same_fraction g xy r =
     round_double (same_type_count g xy r) (length (neighbours_of g xy r))"

subsection \<open>Initialization: np.random.choice(3, size, p) - 1\<close>

text \<open>
  The record of the constructor's arguments. \<open>size\<close> of the source is \<open>size_hw\<close> here.
\<close>

record SchellingModel =
  size_hw :: "int \<times> int"
  neighbor_size :: int
  neighbor_tol :: rat
  prior_dist :: "rat list"
  max_frame :: int
  show_every :: int

text \<open>
  numpy's \<open>choice\<close> with probabilities samples by inverting the cumulative distribution:
  it refuses a \<open>p\<close> whose length is not the population size, that has a negative entry or
  whose sum is further than \<open>sqrt(eps) = 2^-26\<close> from one (ValueError in each case, as for
  a negative dimension), normalises the cumulative sums by the last one, draws one uniform
  sample of \<open>[0, 1)\<close> per cell in row-major order and returns, for the sample \<open>u\<close>, the
  number of cumulative sums that are \<open>\<le> u\<close> (\<open>searchsorted\<close> with \<open>side='right'\<close>).
  The uniform samples are the input \<open>U\<close>: sample \<open>k\<close> is the one of cell \<open>k\<close>.
\<close>

fun cumsum_from :: "rat \<Rightarrow> rat list \<Rightarrow> rat list" where
  "cumsum_from acc [] = []"
| "cumsum_from acc (x # xs) = (acc + x) # cumsum_from (acc + x) xs"

definition cdf_of :: "rat list \<Rightarrow> rat list" where
  "cdf_of p = (let cs = cumsum_from 0 p in map (\<lambda>c. c / last cs) cs)"

definition searchsorted_right :: "rat list \<Rightarrow> rat \<Rightarrow> int" where
  "searchsorted_right cdf u = int (length (filter (\<lambda>c. c \<le> u) cdf))"

definition np_random_choice :: "nat \<Rightarrow> int \<times> int \<Rightarrow> rat list \<Rightarrow> (nat \<Rightarrow> rat) \<Rightarrow> py_error + ndarray" where
  "np_random_choice a sz p U =
     (if length p \<noteq> a then Inl ValueError
      else if \<exists>x \<in> set p. x < 0 then Inl ValueError
      else if \<bar>sum_list p - 1\<bar> > 1 / 2 ^ 26 then Inl ValueError
      else if fst sz < 0 \<or> snd sz < 0 then Inl ValueError
      else Inr \<lparr>shape = sz,
                data = map (\<lambda>k. searchsorted_right (cdf_of p) (U k))
                           [0..<nat (fst sz * snd sz)]\<rparr>)"

text \<open>\<open>grid = np.random.choice(3, size=self.size, p=self.prior_dist) - 1\<close>\<close>

definition init_grid :: "SchellingModel \<Rightarrow> (nat \<Rightarrow> rat) \<Rightarrow> py_error + ndarray" where
  "init_grid self U =
     (case np_random_choice 3 (size_hw self) (prior_dist self) U of
        Inl e \<Rightarrow> Inl e
      | Inr g \<Rightarrow> Inr (g\<lparr>data := map (\<lambda>v. v - 1) (data g)\<rparr>))"

text \<open>The number of cells of a grid that hold the value \<open>v\<close>.\<close>

definition count_cells :: "ndarray \<Rightarrow> int \<Rightarrow> nat" where
  "count_cells g v = count_list (data g) v"

subsection \<open>The frame loop of run\<close>

text \<open>
  The state of a run: the grid, the number of values drawn so far from Python's
  \<open>random\<close> generator, the frame counter, and the snapshots handed to the renderer.
\<close>

record sim_state =
  grid :: ndarray
  rng :: nat
  frame :: int
  shown :: "(int \<times> ndarray) list"

text \<open>
  \<open>random.choice(seq)\<close>: IndexError on an empty sequence, else the element at a random
  index below the length. The generator is the stream \<open>picks\<close> of its raw outputs; the
  draw at position \<open>pos\<close> selects index \<open>picks pos mod len(seq)\<close>.
\<close>

definition random_choice :: "(nat \<Rightarrow> nat) \<Rightarrow> nat \<Rightarrow> 'a list \<Rightarrow> py_error + ('a \<times> nat)" where
  "random_choice picks pos seq =
     (if seq = [] then Inl IndexError
      else Inr (seq ! (picks pos mod length seq), Suc pos))"


text \<open>\<open>np.argwhere(grid == 0)\<close>: the coordinates of the zero cells, in row-major order.\<close>

definition row_major :: "int \<Rightarrow> int \<Rightarrow> coord list" where
  "row_major h w = List.product (py_range 0 h) (py_range 0 w)"

definition argwhere0 :: "ndarray \<Rightarrow> coord list" where
  "argwhere0 g = filter (\<lambda>c. cell g c = 0) (row_major (fst (shape g)) (snd (shape g)))"

text \<open>The body of the two nested \<open>for\<close> loops at the cell \<open>ij\<close>.\<close>

definition visit :: "SchellingModel \<Rightarrow> (nat \<Rightarrow> nat) \<Rightarrow> coord \<Rightarrow> sim_state \<Rightarrow> py_error + sim_state" where
  "visit self picks ij s =
     (case getitem (grid s) ij of
        Inl e \<Rightarrow> Inl e
      | Inr v \<Rightarrow>
          if v = 0 then Inr s
          else
            (case similarity (grid s) ij (neighbor_size self) (neighbor_tol self) of
               Inl e \<Rightarrow> Inl e
             | Inr must_move \<Rightarrow>
                 if \<not> must_move then Inr s
                 else
                   (case random_choice picks (rng s) (argwhere0 (grid s)) of
                      Inl e \<Rightarrow> Inl e
                    | Inr (dst, pos) \<Rightarrow>
                        (case getitem (grid s) ij of
                           Inl e \<Rightarrow> Inl e
                         | Inr own \<Rightarrow>
                             (case setitem (grid s) dst own of
                                Inl e \<Rightarrow> Inl e
                              | Inr g1 \<Rightarrow>
                                  (case setitem g1 ij 0 of
                                     Inl e \<Rightarrow> Inl e
                                   | Inr g2 \<Rightarrow> Inr (s\<lparr>grid := g2, rng := pos\<rparr>)))))))"

text \<open>The nested loops over a list of cells, the state threaded from each cell to the next.\<close>

fun sweep_cells :: "SchellingModel \<Rightarrow> (nat \<Rightarrow> nat) \<Rightarrow> coord list \<Rightarrow> sim_state \<Rightarrow> py_error + sim_state" where
  "sweep_cells self picks [] s = Inr s"
| "sweep_cells self picks (ij # rest) s =
     (case visit self picks ij s of
        Inl e \<Rightarrow> Inl e
      | Inr s' \<Rightarrow> sweep_cells self picks rest s')"

definition sweep :: "SchellingModel \<Rightarrow> (nat \<Rightarrow> nat) \<Rightarrow> sim_state \<Rightarrow> py_error + sim_state" where
  "sweep self picks s =
     sweep_cells self picks (row_major (fst (size_hw self)) (snd (size_hw self))) s"

text \<open>
  The \<open>if not frame % self.show_every\<close> block, once the cadence is known not to be zero:
  a frame divisible by the cadence is handed to the renderer, which does not touch the grid.
\<close>

definition render :: "SchellingModel \<Rightarrow> sim_state \<Rightarrow> sim_state" where
  "render self s =
     (if frame s mod show_every self = 0
      then s\<lparr>shown := shown s @ [(frame s, grid s)]\<rparr> else s)"

text \<open>
  One iteration of the \<open>while\<close> loop: \<open>frame % show_every\<close> raises ZeroDivisionError
  when the cadence is zero; a frame divisible by the cadence is shown; the grid is swept;
  the counter is incremented.
\<close>

definition step :: "SchellingModel \<Rightarrow> (nat \<Rightarrow> nat) \<Rightarrow> sim_state \<Rightarrow> py_error + sim_state" where
  "step self picks s =
     (if show_every self = 0 then Inl ZeroDivisionError
      else
        (case sweep self picks (render self s) of
           Inl e \<Rightarrow> Inl e
         | Inr s2 \<Rightarrow> Inr (s2\<lparr>frame := frame s2 + 1\<rparr>)))"

text \<open>\<open>n\<close> iterations of the loop body, one after the other, stopping at the first error.\<close>

fun steps :: "SchellingModel \<Rightarrow> (nat \<Rightarrow> nat) \<Rightarrow> nat \<Rightarrow> sim_state \<Rightarrow> py_error + sim_state" where
  "steps self picks 0 s = Inr s"
| "steps self picks (Suc n) s =
     (case step self picks s of
        Inl e \<Rightarrow> Inl e
      | Inr s' \<Rightarrow> steps self picks n s')"

text \<open>
  The \<open>while\<close> loop. Each iteration increments the frame counter, which is what makes
  the loop end; the three facts before the definition are its termination argument.
\<close>

lemma visit_frame: "visit self picks ij s = Inr s' \<Longrightarrow> frame s' = frame s"
  unfolding visit_def
  by (auto split: sum.splits if_splits prod.splits)

lemma sweep_cells_frame: "sweep_cells self picks cs s = Inr s' \<Longrightarrow> frame s' = frame s"
proof (induction cs arbitrary: s)
  case Nil
  then show ?case by simp
next
  case (Cons c cs)
  then show ?case by (auto split: sum.splits dest: visit_frame)
qed

lemma step_frame: "step self picks s = Inr s' \<Longrightarrow> frame s' = frame s + 1"
  unfolding step_def sweep_def render_def
  by (auto split: sum.splits if_splits dest!: sweep_cells_frame)

function run_loop :: "SchellingModel \<Rightarrow> (nat \<Rightarrow> nat) \<Rightarrow> sim_state \<Rightarrow> py_error + sim_state" where
  "run_loop self picks s =
     (if frame s < max_frame self
      then (case step self picks s of
              Inl e \<Rightarrow> Inl e
            | Inr s' \<Rightarrow> run_loop self picks s')
      else Inr s)"
  by pat_completeness auto
termination
  by (relation "measure (\<lambda>(self, picks, s). nat (max_frame self - frame s))")
     (auto dest: step_frame)

text \<open>The state in which the loop is entered: nothing drawn, frame 0, nothing shown.\<close>

definition initial_state :: "ndarray \<Rightarrow> sim_state" where
  "initial_state g = \<lparr>grid = g, rng = 0, frame = 0, shown = []\<rparr>"

definition run :: "SchellingModel \<Rightarrow> (nat \<Rightarrow> rat) \<Rightarrow> (nat \<Rightarrow> nat) \<Rightarrow> py_error + sim_state" where
  "run self U picks =
     (case init_grid self U of
        Inl e \<Rightarrow> Inl e
      | Inr g \<Rightarrow> run_loop self picks (initial_state g))"

text \<open>
  The conditions under which no step of a run can raise: the grid has the configured shape
  and at least two cells, one of them Empty; the radius is at least one; the cadence is not
  zero.
\<close>

definition runnable :: "SchellingModel \<Rightarrow> ndarray \<Rightarrow> bool" where
  "runnable self g =
     (wf_grid g \<and> shape g = size_hw self \<and> 0 \<in> set (data g) \<and>
      2 \<le> fst (size_hw self) * snd (size_hw self) \<and> 1 \<le> neighbor_size self \<and>
      show_every self \<noteq> 0)"

subsection \<open>Fixtures\<close>

text \<open>
  The 3 x 3 grid of the example scenario, with \<open>-1\<close> for A and \<open>1\<close> for B; a grid of a
  single occupied cell; a full 1 x 2 grid of two occupants of different types; a 1 x 3 grid
  with one Empty cell in the middle.
\<close>

definition fixture_grid :: ndarray where
  "fixture_grid = \<lparr>shape = (3, 3), data = [-1, -1, 0, 0, 1, -1, 1, 0, 1]\<rparr>"

definition lonely_grid :: ndarray where
  "lonely_grid = \<lparr>shape = (1, 1), data = [1]\<rparr>"

definition full_grid :: ndarray where
  "full_grid = \<lparr>shape = (1, 2), data = [-1, 1]\<rparr>"

definition gap_grid :: ndarray where
  "gap_grid = \<lparr>shape = (1, 3), data = [-1, 0, 1]\<rparr>"

text \<open>
  A 2 x 3 grid whose cell \<open>(0, 1)\<close> has five neighbours, one of them of its own type,
  with the binary64 number that the literal \<open>0.2\<close> denotes; a 1 x 4 grid with two Empty
  cells between two occupants.
\<close>

definition ratio_grid :: ndarray where
  "ratio_grid = \<lparr>shape = (2, 3), data = [1, 1, - 1, - 1, 0, - 1]\<rparr>"

definition double_0_2 :: rat where
  "double_0_2 = 3602879701896397 / 18014398509481984"

definition two_gap_grid :: ndarray where
  "two_gap_grid = \<lparr>shape = (1, 4), data = [- 1, 0, 0, 1]\<rparr>"

text \<open>Generators with constant output, and the configurations the fixtures are run with.\<close>

definition const_samples :: "rat \<Rightarrow> nat \<Rightarrow> rat" where
  "const_samples u k = u"

definition thirds_samples :: "nat \<Rightarrow> rat" where
  "thirds_samples k = of_nat (k mod 3) / 3"

text \<open>Generators that output a given list and then zeros.\<close>

definition list_samples :: "rat list \<Rightarrow> nat \<Rightarrow> rat" where
  "list_samples xs k = (if k < length xs then xs ! k else 0)"

definition list_picks :: "nat list \<Rightarrow> nat \<Rightarrow> nat" where
  "list_picks xs k = (if k < length xs then xs ! k else 0)"

definition const_picks :: "nat \<Rightarrow> nat \<Rightarrow> nat" where
  "const_picks r k = r"

definition fixture_model :: "int \<times> int \<Rightarrow> rat list \<Rightarrow> int \<Rightarrow> SchellingModel" where
  "fixture_model sz p frames =
     \<lparr>size_hw = sz, neighbor_size = 1, neighbor_tol = 1 / 2, prior_dist = p,
      max_frame = frames, show_every = 5\<rparr>"

section \<open>Properties of find_neighbors\<close>

lemma sorted_wrt_upto_less: "sorted_wrt (<) [a..b::int]"
  by (simp add: strict_sorted_iff)

lemma lex_less_product:
  "sorted_wrt (<) xs \<Longrightarrow> sorted_wrt (<) ys \<Longrightarrow> sorted_wrt lex_less (List.product xs ys)"
proof (induction xs)
  case Nil
  then show ?case by simp
next
  case (Cons x xs)
  have a: "sorted_wrt lex_less (map (Pair x) ys)"
    using Cons.prems(2) by (simp add: sorted_wrt_map lex_less_def)
  have b: "sorted_wrt lex_less (List.product xs ys)"
    using Cons by simp
  have c: "\<forall>p \<in> set (map (Pair x) ys). \<forall>q \<in> set (List.product xs ys). lex_less p q"
    using Cons.prems(1) by (auto simp: lex_less_def)
  show ?case using a b c by (simp add: sorted_wrt_append)
qed

lemma sorted_square: "sorted_wrt lex_less (square xy r)"
  unfolding square_def py_range_def
  by (rule lex_less_product) (rule sorted_wrt_upto_less)+

lemma sorted_find_neighbors: "sorted_wrt lex_less (find_neighbors xy m n r)"
  unfolding find_neighbors_def by (rule sorted_wrt_filter) (rule sorted_square)

lemma distinct_square: "distinct (square xy r)"
  unfolding square_def py_range_def by (simp add: distinct_product)

lemma distinct_find_neighbors: "distinct (find_neighbors xy m n r)"
  unfolding find_neighbors_def using distinct_square by simp

lemma find_neighbors_radius0: "find_neighbors xy m n 0 = []"
  by (cases xy) (simp add: find_neighbors_def square_def py_range_def)

lemma set_square: "set (square xy r) = {c. \<bar>fst c - fst xy\<bar> \<le> r \<and> \<bar>snd c - snd xy\<bar> \<le> r}"
  unfolding square_def py_range_def by (auto simp: abs_le_iff)

lemma length_square: "0 \<le> r \<Longrightarrow> length (square xy r) = nat ((2 * r + 1)^2)"
  unfolding square_def py_range_def
  by (simp add: power2_eq_square nat_mult_distrib)

lemma set_find_neighbors:
  "set (find_neighbors xy m n r) =
     {c. \<bar>fst c - fst xy\<bar> \<le> r \<and> \<bar>snd c - snd xy\<bar> \<le> r \<and> c \<noteq> xy \<and>
         in_range (fst c) m \<and> in_range (snd c) n}"
  unfolding find_neighbors_def by (auto simp: set_square)

lemma length_filter_split:
  "length (filter P xs) + length (filter (\<lambda>x. \<not> P x) xs) = length xs"
  by (induction xs) auto

lemma length_filter_remove1:
  "distinct xs \<Longrightarrow> a \<in> set xs \<Longrightarrow> P a \<Longrightarrow>
   length (filter (\<lambda>x. x \<noteq> a \<and> P x) xs) + 1 = length (filter P xs)"
proof (induction xs)
  case Nil then show ?case by simp
next
  case (Cons x xs)
  show ?case
  proof (cases "x = a")
    case True
    then have "a \<notin> set xs" using Cons.prems(1) by simp
    then have "filter (\<lambda>x. x \<noteq> a \<and> P x) xs = filter P xs"
      by (intro filter_cong) auto
    then show ?thesis using True Cons.prems(3) by simp
  next
    case False
    then show ?thesis using Cons by auto
  qed
qed

lemma length_find_neighbors:
  assumes "0 \<le> r" "in_range (fst xy) m" "in_range (snd xy) n"
  shows "int (length (find_neighbors xy m n r)) =
         (2 * r + 1)^2 - 1 - int (length (filter (clipped m n) (square xy r)))"
proof -
  let ?P = "\<lambda>c. in_range (fst c) m \<and> in_range (snd c) n"
  define a where "a = length (filter (\<lambda>c. c \<noteq> xy \<and> ?P c) (square xy r))"
  define b where "b = length (filter ?P (square xy r))"
  define c where "c = length (filter (clipped m n) (square xy r))"
  define t where "t = (2 * r + 1)^2"
  have mem: "xy \<in> set (square xy r)" using assms(1) by (simp add: set_square)
  have e1: "a + 1 = b" unfolding a_def b_def
    by (rule length_filter_remove1[OF distinct_square mem]) (simp add: assms)
  have "filter (\<lambda>c. \<not> ?P c) (square xy r) = filter (clipped m n) (square xy r)"
    by (rule filter_cong) (simp_all add: clipped_def)
  then have e2: "b + c = length (square xy r)"
    unfolding b_def c_def using length_filter_split[of ?P "square xy r"] by simp
  have e3: "int (length (square xy r)) = t"
    unfolding t_def using assms(1) by (simp add: length_square)
  have "int a = t - 1 - int c" using e1 e2 e3 by linarith
  then show ?thesis unfolding find_neighbors_def a_def c_def t_def .
qed


text \<open>
  C10: whatever the grid size, the centre and the radius, find_neighbors yields its
  coordinates in strictly increasing lexicographic (row-major) order, so no coordinate is
  yielded twice and the sequence is a function of the arguments alone; with radius 0 it
  yields nothing.
\<close>

theorem find_neighbors_strictly_increasing:
  "sorted_wrt lex_less (find_neighbors xy n_rows n_cols r) \<and>
   distinct (find_neighbors xy n_rows n_cols r) \<and>
   find_neighbors xy n_rows n_cols 0 = []"
proof (intro conjI)
  show "sorted_wrt lex_less (find_neighbors xy n_rows n_cols r)"
    by (rule sorted_find_neighbors)
  show "distinct (find_neighbors xy n_rows n_cols r)"
    by (rule distinct_find_neighbors)
  show "find_neighbors xy n_rows n_cols 0 = []"
    by (rule find_neighbors_radius0)
qed

theorem find_neighbors_strictly_increasing_witness:
  "find_neighbors (0, 0) 2 2 1 = [(0, 1), (1, 0), (1, 1)] \<and>
   sorted_wrt lex_less (find_neighbors (0, 0) 2 2 1) \<and>
   distinct (find_neighbors (0, 0) 2 2 1) \<and>
   find_neighbors (0, 0) 2 2 0 = []"
proof -
  have "find_neighbors (0, 0) 2 2 1 = [(0, 1), (1, 0), (1, 1)]" by code_simp
  then show ?thesis
    using find_neighbors_strictly_increasing [of "(0, 0)" 2 2 1] by simp
qed

text \<open>
  C6: for an in-bounds centre and a radius that is not negative, find_neighbors yields
  exactly the coordinates of the square of side \<open>2 * r + 1\<close> around the centre that are
  inside the grid and are not the centre: the centre is never yielded, every yielded
  coordinate is in bounds, and their number is \<open>(2 * r + 1)^2 - 1\<close> minus the number of
  positions of the square that are clipped.
\<close>

theorem find_neighbors_exact:
  assumes "0 \<le> r" and "in_range (fst xy) n_rows" and "in_range (snd xy) n_cols"
  shows "set (find_neighbors xy n_rows n_cols r) =
           {c. \<bar>fst c - fst xy\<bar> \<le> r \<and> \<bar>snd c - snd xy\<bar> \<le> r \<and> c \<noteq> xy \<and>
               in_range (fst c) n_rows \<and> in_range (snd c) n_cols} \<and>
         distinct (find_neighbors xy n_rows n_cols r) \<and>
         xy \<notin> set (find_neighbors xy n_rows n_cols r) \<and>
         (\<forall>c \<in> set (find_neighbors xy n_rows n_cols r).
            in_range (fst c) n_rows \<and> in_range (snd c) n_cols) \<and>
         int (length (find_neighbors xy n_rows n_cols r)) =
           (2 * r + 1)^2 - 1 - int (length (filter (clipped n_rows n_cols) (square xy r)))"
proof -
  have "xy \<notin> set (find_neighbors xy n_rows n_cols r)"
    by (simp add: set_find_neighbors)
  moreover have "\<forall>c \<in> set (find_neighbors xy n_rows n_cols r).
            in_range (fst c) n_rows \<and> in_range (snd c) n_cols"
    by (simp add: set_find_neighbors)
  ultimately show ?thesis
    using set_find_neighbors [of xy n_rows n_cols r] distinct_find_neighbors [of xy n_rows n_cols r]
      length_find_neighbors [OF assms]
    by blast
qed

theorem find_neighbors_exact_witness:
  "find_neighbors (0, 0) 2 2 1 = [(0, 1), (1, 0), (1, 1)] \<and>
   filter (clipped 2 2) (square (0, 0) 1) = [(-1, -1), (-1, 0), (-1, 1), (0, -1), (1, -1)] \<and>
   int (length (find_neighbors (0, 0) 2 2 1)) =
     (2 * 1 + 1)^2 - 1 - int (length (filter (clipped 2 2) (square (0, 0) 1)))"
proof -
  have a: "find_neighbors (0, 0) 2 2 1 = [(0, 1), (1, 0), (1, 1)]" by code_simp
  have b: "filter (clipped 2 2) (square (0, 0) 1) = [(-1, -1), (-1, 0), (-1, 1), (0, -1), (1, -1)]"
    by code_simp
  have h1: "(0::int) \<le> 1" by simp
  have h2: "in_range (fst ((0, 0)::coord)) 2" by (simp add: in_range_def)
  have h3: "in_range (snd ((0, 0)::coord)) 2" by (simp add: in_range_def)
  show ?thesis using a b find_neighbors_exact [OF h1 h2 h3] by simp
qed

section \<open>Reading and writing the grid\<close>

lemma norm_index_in_range: "in_range i n \<Longrightarrow> norm_index i n = Inr i"
  by (simp add: norm_index_def in_range_def)

lemma flat_index_in_bounds:
  "in_bounds g c \<Longrightarrow> flat_index g c = Inr (nat (fst c * snd (shape g) + snd c))"
  by (simp add: flat_index_def in_bounds_def norm_index_in_range)

lemma getitem_in_bounds: "in_bounds g c \<Longrightarrow> getitem g c = Inr (cell g c)"
  by (simp add: getitem_def flat_index_in_bounds cell_def)

lemma getitems_in_bounds:
  "\<forall>c \<in> set cs. in_bounds g c \<Longrightarrow> getitems g cs = Inr (map (cell g) cs)"
  by (induction cs) (simp_all add: getitem_in_bounds)

lemma neighbours_in_bounds: "c \<in> set (neighbours_of g xy r) \<Longrightarrow> in_bounds g c"
  by (simp add: neighbours_of_def set_find_neighbors in_bounds_def)

lemma count_list_map: "count_list (map f xs) v = length (filter (\<lambda>x. f x = v) xs)"
  by (induction xs) auto

lemma floor_log2_le:
  assumes "a \<le> b"
  shows "floor_log2 a b \<le> 0"
proof -
  have "floorlog 2 a \<le> floorlog 2 b" using assms by (rule floorlog_mono)
  then show ?thesis by (simp add: floor_log2_def Let_def)
qed

lemma no_overflow_le: "a \<le> b \<Longrightarrow> \<not> overflows a b"
  using floor_log2_le [of a b] by (simp add: overflows_def Let_def)

lemma round_half_even_error: "\<bar>of_int (round_half_even x) - x\<bar> \<le> 1 / 2"
proof -
  define f where "f = \<lfloor>x\<rfloor>"
  have a: "of_int f \<le> x" and b: "x < of_int f + 1" unfolding f_def by linarith+
  consider "x - of_int f < 1 / 2" | "1 / 2 < x - of_int f" | "x - of_int f = 1 / 2"
    by linarith
  then show ?thesis
  proof cases
    case 1
    then have "round_half_even x = f" by (simp add: round_half_even_def f_def)
    then show ?thesis using a 1 by simp
  next
    case 2
    then have "round_half_even x = f + 1" by (simp add: round_half_even_def f_def)
    then show ?thesis using b 2 by simp
  next
    case 3
    then have "round_half_even x = f \<or> round_half_even x = f + 1"
      by (simp add: round_half_even_def f_def Let_def)
    then show ?thesis using 3 by auto
  qed
qed

lemma pow2_pos: "0 < pow2 e"
  by (simp add: pow2_def)

lemma pow2_le_52:
  assumes "e \<le> 0"
  shows "pow2 (e - 52) \<le> 1 / 2 ^ 52"
proof -
  have "(2::rat) ^ 52 \<le> 2 ^ nat (52 - e)" using assms by (intro power_increasing) auto
  then have "1 / (2::rat) ^ nat (52 - e) \<le> 1 / 2 ^ 52" by (simp add: field_simps)
  then show ?thesis using assms by (simp add: pow2_def)
qed

lemma round_double_error:
  assumes "a \<le> b"
  shows "\<bar>round_double a b - of_nat a / of_nat b\<bar> \<le> 1 / 2 ^ 53"
proof (cases "a = 0")
  case True
  then show ?thesis by (simp add: round_double_def)
next
  case False
  define e where "e = max (floor_log2 a b) (- 1022)"
  define u where "u = pow2 (e - 52)"
  define q :: rat where "q = of_nat a / of_nat b"
  have e0: "e \<le> 0" using floor_log2_le [OF assms] by (simp add: e_def)
  have up: "0 < u" by (simp add: u_def pow2_pos)
  have ule: "u \<le> 1 / 2 ^ 52" unfolding u_def by (rule pow2_le_52 [OF e0])
  have rd: "round_double a b = of_int (round_half_even (q / u)) * u"
    using False by (simp add: round_double_def Let_def e_def u_def q_def)
  have "\<bar>of_int (round_half_even (q / u)) * u - q\<bar>
      = \<bar>of_int (round_half_even (q / u)) - q / u\<bar> * u"
    using up by (simp add: abs_mult [symmetric] field_simps)
  also have "\<dots> \<le> (1 / 2) * u"
    using round_half_even_error [of "q / u"] up by (intro mult_right_mono) auto
  also have "\<dots> \<le> (1 / 2) * (1 / 2 ^ 52)" using ule by simp
  also have "\<dots> = 1 / 2 ^ 53" by simp
  finally show ?thesis unfolding rd q_def .
qed

lemma same_fraction_error:
  "\<bar>same_fraction g xy r
     - of_nat (same_type_count g xy r) / of_nat (length (neighbours_of g xy r))\<bar> \<le> 1 / 2 ^ 53"
  unfolding same_fraction_def
  by (rule round_double_error) (simp add: same_type_count_def)

lemma count_list_le_length: "count_list xs v \<le> length xs"
  by (induction xs) auto

lemma similarity_in_bounds:
  assumes "in_bounds g xy"
  shows "similarity g xy r tol =
           (if neighbours_of g xy r = [] then Inl ZeroDivisionError
            else Inr (same_fraction g xy r < tol))"
proof -
  have a: "getitems g (find_neighbors xy (fst (shape g)) (snd (shape g)) r)
             = Inr (map (cell g) (neighbours_of g xy r))"
    using getitems_in_bounds [of "neighbours_of g xy r" g] neighbours_in_bounds [of _ g xy r]
    by (simp add: neighbours_of_def)
  have "length (filter (\<lambda>c. cell g c = cell g xy) (neighbours_of g xy r))
          \<le> length (neighbours_of g xy r)" by simp
  then have b: "\<not> overflows (length (filter (\<lambda>c. cell g c = cell g xy) (neighbours_of g xy r)))
                           (length (neighbours_of g xy r))"
    by (rule no_overflow_le)
  show ?thesis
    unfolding similarity_def a
    using b
    by (simp add: getitem_in_bounds [OF assms] py_truediv_def count_list_map
        same_fraction_def same_type_count_def)
qed

lemma nonlin_index:
  assumes "0 \<le> i" "i < m" "0 \<le> j" "j < (n::int)"
  shows "i * n + j < m * n"
proof -
  have "i + 1 \<le> m" using assms by simp
  then have "(i + 1) * n \<le> m * n" using assms by (intro mult_right_mono) auto
  then show ?thesis using assms by (simp add: algebra_simps)
qed

lemma flat_index_bound:
  assumes "wf_grid g" "flat_index g c = Inr k"
  shows "k < length (data g)"
proof -
  from assms(2) obtain i j where i: "norm_index (fst c) (fst (shape g)) = Inr i"
    and j: "norm_index (snd c) (snd (shape g)) = Inr j"
    and k: "k = nat (i * snd (shape g) + j)"
    by (auto simp: flat_index_def split: sum.splits)
  have ib: "0 \<le> i \<and> i < fst (shape g)" using i
    by (auto simp: norm_index_def Let_def split: if_splits)
  have jb: "0 \<le> j \<and> j < snd (shape g)" using j
    by (auto simp: norm_index_def Let_def split: if_splits)
  have "i * snd (shape g) + j < fst (shape g) * snd (shape g)"
    using ib jb by (intro nonlin_index) auto
  moreover have "0 \<le> i * snd (shape g) + j" using ib jb by simp
  ultimately show ?thesis using assms(1) k by (simp add: wf_grid_def nat_less_iff)
qed

section \<open>One visit, one sweep, one frame\<close>

lemma set_row_major: "set (row_major h w) = {c. in_range (fst c) h \<and> in_range (snd c) w}"
  unfolding row_major_def py_range_def in_range_def by auto

lemma argwhere0_mem: "c \<in> set (argwhere0 g) \<longleftrightarrow> in_bounds g c \<and> cell g c = 0"
  by (auto simp: argwhere0_def set_row_major in_bounds_def)

lemma random_choice_mem:
  "random_choice picks pos seq = Inr (x, pos') \<Longrightarrow> x \<in> set seq \<and> pos' = Suc pos"
  by (auto simp: random_choice_def split: if_splits)

lemma setitem_shape: "setitem g c v = Inr g' \<Longrightarrow> shape g' = shape g"
  by (auto simp: setitem_def split: sum.splits)

lemma flat_index_shape: "shape g' = shape g \<Longrightarrow> flat_index g' c = flat_index g c"
  by (simp add: flat_index_def split: sum.splits)

text \<open>What a relocation does to the data.\<close>
lemma visit_empty:
  "getitem (grid s) ij = Inr 0 \<Longrightarrow> visit self picks ij s = Inr s"
  by (simp add: visit_def)

lemma visit_stay:
  "getitem (grid s) ij = Inr v \<Longrightarrow>
   similarity (grid s) ij (neighbor_size self) (neighbor_tol self) = Inr False \<Longrightarrow>
   visit self picks ij s = Inr s"
  by (simp add: visit_def)

lemma visit_error_getitem:
  "getitem (grid s) ij = Inl e \<Longrightarrow> visit self picks ij s = Inl e"
  by (simp add: visit_def)

lemma visit_error_similarity:
  "getitem (grid s) ij = Inr v \<Longrightarrow> v \<noteq> 0 \<Longrightarrow>
   similarity (grid s) ij (neighbor_size self) (neighbor_tol self) = Inl e \<Longrightarrow>
   visit self picks ij s = Inl e"
  by (simp add: visit_def)

lemma visit_error_choice:
  "getitem (grid s) ij = Inr v \<Longrightarrow> v \<noteq> 0 \<Longrightarrow>
   similarity (grid s) ij (neighbor_size self) (neighbor_tol self) = Inr True \<Longrightarrow>
   random_choice picks (rng s) (argwhere0 (grid s)) = Inl e \<Longrightarrow>
   visit self picks ij s = Inl e"
  by (simp add: visit_def)

lemma visit_move:
  "getitem (grid s) ij = Inr v \<Longrightarrow> v \<noteq> 0 \<Longrightarrow>
   similarity (grid s) ij (neighbor_size self) (neighbor_tol self) = Inr True \<Longrightarrow>
   random_choice picks (rng s) (argwhere0 (grid s)) = Inr (dst, pos) \<Longrightarrow>
   visit self picks ij s =
     (case setitem (grid s) dst v of
        Inl e \<Rightarrow> Inl e
      | Inr g1 \<Rightarrow>
          (case setitem g1 ij 0 of
             Inl e \<Rightarrow> Inl e
           | Inr g2 \<Rightarrow> Inr (s\<lparr>grid := g2, rng := pos\<rparr>)))"
  by (simp add: visit_def)

lemma visit_cases:
  assumes "visit self picks ij s = Inr s'"
  shows "s' = s \<or>
         (\<exists>dst kd ks. dst \<in> set (argwhere0 (grid s)) \<and>
            dst = argwhere0 (grid s) ! (picks (rng s) mod length (argwhere0 (grid s))) \<and>
            flat_index (grid s) dst = Inr kd \<and> flat_index (grid s) ij = Inr ks \<and>
            data (grid s) ! ks \<noteq> 0 \<and>
            similarity (grid s) ij (neighbor_size self) (neighbor_tol self) = Inr True \<and>
            s' = s\<lparr>grid := (grid s)\<lparr>data := (data (grid s))[kd := data (grid s) ! ks, ks := 0]\<rparr>,
                   rng := Suc (rng s)\<rparr>)"
proof -
  let ?g = "grid s"
  let ?sim = "similarity ?g ij (neighbor_size self) (neighbor_tol self)"
  let ?rc = "random_choice picks (rng s) (argwhere0 ?g)"
  obtain v where v: "getitem ?g ij = Inr v"
    using assms visit_error_getitem [of s ij _ self picks]
    by (cases "getitem ?g ij") simp_all
  then obtain ks where ks: "flat_index ?g ij = Inr ks" and vk: "v = data ?g ! ks"
    unfolding getitem_def by (cases "flat_index ?g ij") simp_all
  show ?thesis
  proof (cases "v = 0")
    case True
    then show ?thesis using assms v visit_empty [of s ij self picks] by simp
  next
    case v0: False
    obtain b where b: "?sim = Inr b"
      using assms visit_error_similarity [OF v v0, of self _ picks]
      by (cases ?sim) simp_all
    show ?thesis
    proof (cases b)
      case False
      then show ?thesis using assms visit_stay [OF v, of self picks] b by simp
    next
      case True
      have sim: "?sim = Inr True" using b True by simp
      obtain dp where dp: "?rc = Inr dp"
        using assms visit_error_choice [OF v v0 sim, of picks]
        by (cases ?rc) simp_all
      obtain dst pos where dpe: "dp = (dst, pos)" by (cases dp)
      have rc: "?rc = Inr (dst, pos)" using dp dpe by simp
      have ne: "argwhere0 ?g \<noteq> []" using rc unfolding random_choice_def
        by (cases "argwhere0 ?g = []") simp_all
      have dst: "dst = argwhere0 ?g ! (picks (rng s) mod length (argwhere0 ?g))"
        and pos: "pos = Suc (rng s)"
        using rc ne unfolding random_choice_def by simp_all
      have mem: "dst \<in> set (argwhere0 ?g)" using random_choice_mem [OF rc] by simp
      note mv = visit_move [OF v v0 sim rc]
      obtain g1 where g1: "setitem ?g dst v = Inr g1"
        using assms mv by (cases "setitem ?g dst v") simp_all
      then obtain kd where kd: "flat_index ?g dst = Inr kd"
        and g1d: "g1 = ?g\<lparr>data := (data ?g)[kd := v]\<rparr>"
        unfolding setitem_def by (cases "flat_index ?g dst") auto
      have "shape g1 = shape ?g" using g1d by simp
      then have fi: "flat_index g1 ij = Inr ks"
        using ks flat_index_shape [of g1 ?g ij] by simp
      have g2: "setitem g1 ij 0 = Inr (g1\<lparr>data := (data g1)[ks := 0]\<rparr>)"
        unfolding setitem_def using fi by simp
      have s': "s' = s\<lparr>grid := g1\<lparr>data := (data g1)[ks := 0]\<rparr>, rng := pos\<rparr>"
        using assms mv g1 g2 by simp
      have fin: "s' = s\<lparr>grid := ?g\<lparr>data := (data ?g)[kd := data ?g ! ks, ks := 0]\<rparr>,
                   rng := Suc (rng s)\<rparr>"
        using s' g1d vk pos by simp
      have nz: "data ?g ! ks \<noteq> 0" using v0 vk by simp
      show ?thesis
        by (rule disjI2, rule exI [of _ dst], rule exI [of _ kd], rule exI [of _ ks])
           (intro conjI mem dst kd ks nz sim fin)
    qed
  qed
qed

lemma relocate_mset:
  assumes "kd < length xs" "ks < length xs" "xs ! kd = (0::int)"
  shows "mset (xs[kd := xs ! ks, ks := 0]) = mset xs"
  using mset_swap [OF assms(2) assms(1)] assms(3) by simp

lemma argwhere0_flat:
  assumes "dst \<in> set (argwhere0 g)"
  shows "flat_index g dst = Inr (nat (fst dst * snd (shape g) + snd dst)) \<and>
         data g ! nat (fst dst * snd (shape g) + snd dst) = 0"
  using assms by (simp add: argwhere0_mem flat_index_in_bounds cell_def)

lemma visit_preserves:
  assumes "visit self picks ij s = Inr s'" "wf_grid (grid s)"
  shows "mset (data (grid s')) = mset (data (grid s)) \<and> shape (grid s') = shape (grid s) \<and>
         wf_grid (grid s')"
proof -
  from visit_cases [OF assms(1)] show ?thesis
  proof
    assume "s' = s" then show ?thesis using assms(2) by simp
  next
    assume "\<exists>dst kd ks. dst \<in> set (argwhere0 (grid s)) \<and>
            dst = argwhere0 (grid s) ! (picks (rng s) mod length (argwhere0 (grid s))) \<and>
            flat_index (grid s) dst = Inr kd \<and> flat_index (grid s) ij = Inr ks \<and>
            data (grid s) ! ks \<noteq> 0 \<and>
            similarity (grid s) ij (neighbor_size self) (neighbor_tol self) = Inr True \<and>
            s' = s\<lparr>grid := (grid s)\<lparr>data := (data (grid s))[kd := data (grid s) ! ks, ks := 0]\<rparr>,
                   rng := Suc (rng s)\<rparr>"
    then obtain dst kd ks where mem: "dst \<in> set (argwhere0 (grid s))"
      and kd: "flat_index (grid s) dst = Inr kd" and ks: "flat_index (grid s) ij = Inr ks"
      and s': "s' = s\<lparr>grid := (grid s)\<lparr>data := (data (grid s))[kd := data (grid s) ! ks, ks := 0]\<rparr>,
                   rng := Suc (rng s)\<rparr>"
      by blast
    have z: "data (grid s) ! kd = 0" using argwhere0_flat [OF mem] kd by simp
    have b1: "kd < length (data (grid s))" using flat_index_bound [OF assms(2) kd] .
    have b2: "ks < length (data (grid s))" using flat_index_bound [OF assms(2) ks] .
    have "mset (data (grid s')) = mset (data (grid s))"
      using relocate_mset [OF b1 b2 z] s' by simp
    moreover have "shape (grid s') = shape (grid s)" using s' by simp
    moreover have "wf_grid (grid s')" using assms(2) s' by (simp add: wf_grid_def)
    ultimately show ?thesis by simp
  qed
qed

lemma sweep_cells_preserves:
  "sweep_cells self picks cs s = Inr s' \<Longrightarrow> wf_grid (grid s) \<Longrightarrow>
   mset (data (grid s')) = mset (data (grid s)) \<and> shape (grid s') = shape (grid s) \<and>
   wf_grid (grid s')"
proof (induction cs arbitrary: s)
  case Nil
  then show ?case by simp
next
  case (Cons c cs)
  from Cons.prems(1) obtain s1 where v: "visit self picks c s = Inr s1"
    and r: "sweep_cells self picks cs s1 = Inr s'"
    by (auto split: sum.splits)
  from visit_preserves [OF v Cons.prems(2)] Cons.IH [OF r] show ?case by simp
qed

lemma step_preserves:
  assumes "step self picks s = Inr s'" "wf_grid (grid s)"
  shows "mset (data (grid s')) = mset (data (grid s)) \<and> shape (grid s') = shape (grid s) \<and>
         wf_grid (grid s')"
proof -
  have g1: "grid (render self s) = grid s" by (simp add: render_def)
  from assms(1) obtain s2 where sw: "sweep_cells self picks
      (row_major (fst (size_hw self)) (snd (size_hw self))) (render self s) = Inr s2"
    and s': "s' = s2\<lparr>frame := frame s2 + 1\<rparr>"
    unfolding step_def sweep_def by (auto split: sum.splits if_splits)
  from sweep_cells_preserves [OF sw] assms(2) g1 s' show ?thesis by simp
qed

lemma steps_preserves:
  "steps self picks n s = Inr s' \<Longrightarrow> wf_grid (grid s) \<Longrightarrow>
   mset (data (grid s')) = mset (data (grid s)) \<and> shape (grid s') = shape (grid s) \<and>
   wf_grid (grid s')"
proof (induction n arbitrary: s)
  case 0
  then show ?case by simp
next
  case (Suc n)
  from Suc.prems(1) obtain s1 where a: "step self picks s = Inr s1"
    and b: "steps self picks n s1 = Inr s'"
    by (auto split: sum.splits)
  from step_preserves [OF a Suc.prems(2)] Suc.IH [OF b] show ?case by simp
qed

lemma count_list_mset: "count_list xs v = count (mset xs) v"
  by (induction xs) auto

section \<open>The loop as repeated frames\<close>

declare run_loop.simps [simp del]

lemma run_loop_steps:
  "run_loop self picks s = steps self picks (nat (max_frame self - frame s)) s"
proof (induction self picks s rule: run_loop.induct)
  case (1 self picks s)
  show ?case
  proof (cases "frame s < max_frame self")
    case False
    then show ?thesis by (simp add: run_loop.simps)
  next
    case True
    then obtain n where n: "nat (max_frame self - frame s) = Suc n"
      by (metis Suc_pred' zero_less_nat_eq zero_less_diff diff_gt_0_iff_gt)
    show ?thesis
    proof (cases "step self picks s")
      case (Inl e)
      then show ?thesis using True n by (simp add: run_loop.simps)
    next
      case (Inr s')
      have f: "frame s' = frame s + 1" using Inr by (rule step_frame)
      have "nat (max_frame self - frame s') = n" using n f by linarith
      then show ?thesis using True n Inr "1.IH"[OF True Inr] by (simp add: run_loop.simps)
    qed
  qed
qed

lemma steps_frame: "steps self picks n s = Inr s' \<Longrightarrow> frame s' = frame s + int n"
proof (induction n arbitrary: s)
  case 0 then show ?case by simp
next
  case (Suc n)
  then show ?case by (auto split: sum.splits dest!: step_frame)
qed


lemma init_grid_wf:
  assumes "init_grid self U = Inr g"
  shows "wf_grid g \<and> shape g = size_hw self"
proof -
  from assms obtain g0 where g0: "np_random_choice 3 (size_hw self) (prior_dist self) U = Inr g0"
    and g: "g = g0\<lparr>data := map (\<lambda>v. v - 1) (data g0)\<rparr>"
    unfolding init_grid_def by (cases "np_random_choice 3 (size_hw self) (prior_dist self) U") auto
  from g0 have nn: "0 \<le> fst (size_hw self) \<and> 0 \<le> snd (size_hw self)"
    and sh: "shape g0 = size_hw self"
    and len: "length (data g0) = nat (fst (size_hw self) * snd (size_hw self))"
    unfolding np_random_choice_def by (auto split: if_splits)
  have "0 \<le> fst (size_hw self) * snd (size_hw self)" using nn by simp
  then show ?thesis using nn sh len g by (simp add: wf_grid_def)
qed

lemma steps_counts:
  assumes "steps self picks n s = Inr s'" "wf_grid (grid s)"
  shows "count_cells (grid s') v = count_cells (grid s) v"
  using steps_preserves [OF assms] by (simp add: count_cells_def count_list_mset)

lemma visit_relocation:
  assumes "visit self picks ij s = Inr s'" "wf_grid (grid s)" "in_bounds (grid s) ij"
  shows "s' = s \<or>
         (\<exists>dst. in_bounds (grid s) dst \<and> cell (grid s) dst = 0 \<and> cell (grid s) ij \<noteq> 0 \<and>
                cell (grid s') dst = cell (grid s) ij \<and> cell (grid s') ij = 0)"
proof -
  from visit_cases [OF assms(1)] show ?thesis
  proof
    assume "s' = s" then show ?thesis by simp
  next
    assume "\<exists>dst kd ks. dst \<in> set (argwhere0 (grid s)) \<and>
            dst = argwhere0 (grid s) ! (picks (rng s) mod length (argwhere0 (grid s))) \<and>
            flat_index (grid s) dst = Inr kd \<and> flat_index (grid s) ij = Inr ks \<and>
            data (grid s) ! ks \<noteq> 0 \<and>
            similarity (grid s) ij (neighbor_size self) (neighbor_tol self) = Inr True \<and>
            s' = s\<lparr>grid := (grid s)\<lparr>data := (data (grid s))[kd := data (grid s) ! ks, ks := 0]\<rparr>,
                   rng := Suc (rng s)\<rparr>"
    then obtain dst kd ks where mem: "dst \<in> set (argwhere0 (grid s))"
      and kd: "flat_index (grid s) dst = Inr kd" and ks: "flat_index (grid s) ij = Inr ks"
      and nz: "data (grid s) ! ks \<noteq> 0"
      and s': "s' = s\<lparr>grid := (grid s)\<lparr>data := (data (grid s))[kd := data (grid s) ! ks, ks := 0]\<rparr>,
                   rng := Suc (rng s)\<rparr>"
      by blast
    have ib: "in_bounds (grid s) dst" and cz: "cell (grid s) dst = 0"
      using mem by (simp_all add: argwhere0_mem)
    have kde: "kd = nat (fst dst * snd (shape (grid s)) + snd dst)"
      using kd flat_index_in_bounds [OF ib] by simp
    have kse: "ks = nat (fst ij * snd (shape (grid s)) + snd ij)"
      using ks flat_index_in_bounds [OF assms(3)] by simp
    have z: "data (grid s) ! kd = 0" using cz kde by (simp add: cell_def)
    have ne: "kd \<noteq> ks" using z nz by auto
    have b1: "kd < length (data (grid s))" using flat_index_bound [OF assms(2) kd] .
    have b2: "ks < length (data (grid s))" using flat_index_bound [OF assms(2) ks] .
    have c1: "cell (grid s) ij \<noteq> 0" using nz kse by (simp add: cell_def)
    have c2: "cell (grid s') dst = cell (grid s) ij"
      using s' kde kse ne b1 by (simp add: cell_def)
    have c3: "cell (grid s') ij = 0"
      using s' kse b2 by (simp add: cell_def)
    show ?thesis using ib cz c1 c2 c3 by blast
  qed
qed

section \<open>The relocation rule\<close>

text \<open>
  C2: on a well-formed grid, for an in-bounds cell whose neighbourhood is not empty,
  similarity returns True exactly when the number of neighbours holding the cell's own
  value, divided by the number of all its neighbours, Empty ones included, is strictly
  below the tolerance; when the fraction equals the tolerance it returns False. The
  fraction is the quotient as Python computes it, the binary64 number nearest to the exact
  quotient, which it misses by at most \<open>2^-53\<close>.
\<close>

theorem similarity_iff_fraction_below_tolerance:
  assumes "wf_grid g" and "in_bounds g xy" and "neighbours_of g xy r \<noteq> []"
  shows "similarity g xy r tol = Inr (same_fraction g xy r < tol) \<and>
         (same_fraction g xy r = tol \<longrightarrow> similarity g xy r tol = Inr False) \<and>
         same_fraction g xy r =
           round_double (length (filter (\<lambda>c. cell g c = cell g xy) (neighbours_of g xy r)))
                        (length (neighbours_of g xy r)) \<and>
         \<bar>same_fraction g xy r
            - of_nat (length (filter (\<lambda>c. cell g c = cell g xy) (neighbours_of g xy r)))
              / of_nat (length (neighbours_of g xy r))\<bar> \<le> 1 / 2 ^ 53"
proof -
  have a: "similarity g xy r tol = Inr (same_fraction g xy r < tol)"
    using similarity_in_bounds [OF assms(2), of r tol] assms(3) by simp
  have b: "same_fraction g xy r =
           round_double (length (filter (\<lambda>c. cell g c = cell g xy) (neighbours_of g xy r)))
                        (length (neighbours_of g xy r))"
    by (simp add: same_fraction_def same_type_count_def)
  have c: "\<bar>same_fraction g xy r
            - of_nat (length (filter (\<lambda>c. cell g c = cell g xy) (neighbours_of g xy r)))
              / of_nat (length (neighbours_of g xy r))\<bar> \<le> 1 / 2 ^ 53"
    using same_fraction_error [of g xy r] by (simp add: same_type_count_def)
  show ?thesis using a b c by simp
qed

theorem similarity_iff_fraction_below_tolerance_witness:
  "same_fraction fixture_grid (1, 1) 1 = 1 / 4 \<and>
   similarity fixture_grid (1, 1) 1 (1 / 2) = Inr True \<and>
   similarity fixture_grid (1, 1) 1 (1 / 4) = Inr False \<and>
   same_type_count ratio_grid (0, 1) 1 = 1 \<and>
   length (neighbours_of ratio_grid (0, 1) 1) = 5 \<and>
   same_fraction ratio_grid (0, 1) 1 = double_0_2 \<and>
   similarity ratio_grid (0, 1) 1 double_0_2 = Inr False \<and>
   similarity ratio_grid (0, 1) 1 (double_0_2 + 1 / 2 ^ 55) = Inr True"
proof -
  have w: "wf_grid fixture_grid" by (simp add: wf_grid_def fixture_grid_def)
  have b: "in_bounds fixture_grid (1, 1)"
    by (simp add: in_bounds_def in_range_def fixture_grid_def)
  have n: "neighbours_of fixture_grid (1, 1) 1 \<noteq> []" by code_simp
  have f: "same_fraction fixture_grid (1, 1) 1 = 1 / 4" by code_simp
  have w': "wf_grid ratio_grid" by (simp add: wf_grid_def ratio_grid_def)
  have b': "in_bounds ratio_grid (0, 1)"
    by (simp add: in_bounds_def in_range_def ratio_grid_def)
  have n': "neighbours_of ratio_grid (0, 1) 1 \<noteq> []" by code_simp
  have c': "same_type_count ratio_grid (0, 1) 1 = 1" by code_simp
  have l': "length (neighbours_of ratio_grid (0, 1) 1) = 5" by code_simp
  have f': "same_fraction ratio_grid (0, 1) 1 = double_0_2" by code_simp
  have lt: "double_0_2 < double_0_2 + 1 / 2 ^ 55" by simp
  show ?thesis
    using similarity_iff_fraction_below_tolerance [OF w b n, of "1 / 2"]
      similarity_iff_fraction_below_tolerance [OF w b n, of "1 / 4"]
      similarity_iff_fraction_below_tolerance [OF w' b' n', of double_0_2]
      similarity_iff_fraction_below_tolerance [OF w' b' n', of "double_0_2 + 1 / 2 ^ 55"]
      f c' l' f' lt
    by simp
qed

text \<open>
  C4, as the claim states it, fails: with an empty neighbourhood the division itself
  raises ZeroDivisionError. A grid of one cell shows it.
\<close>

theorem similarity_empty_neighbourhood_counterexample:
  "neighbours_of lonely_grid (0, 0) 1 = [] \<and>
   similarity lonely_grid (0, 0) 1 (1 / 2) = Inl ZeroDivisionError"
  by code_simp

text \<open>
  C4, amended: when the neighbourhood of an in-bounds cell is empty, similarity returns no
  boolean at all; the unguarded division raises Python's ZeroDivisionError, whatever the
  tolerance.
\<close>

theorem similarity_empty_neighbourhood_raises:
  assumes "wf_grid g" and "in_bounds g xy" and "neighbours_of g xy r = []"
  shows "similarity g xy r tol = Inl ZeroDivisionError"
proof -
  have "similarity g xy r tol =
          (if neighbours_of g xy r = [] then Inl ZeroDivisionError
           else Inr (same_fraction g xy r < tol))"
    by (rule similarity_in_bounds [OF assms(2)])
  then show ?thesis using assms(3) by simp
qed

theorem similarity_empty_neighbourhood_raises_witness:
  "wf_grid lonely_grid \<and> in_bounds lonely_grid (0, 0) \<and>
   neighbours_of lonely_grid (0, 0) 7 = [] \<and>
   similarity lonely_grid (0, 0) 7 (1 / 3) = Inl ZeroDivisionError"
proof -
  have w: "wf_grid lonely_grid" by (simp add: wf_grid_def lonely_grid_def)
  have b: "in_bounds lonely_grid (0, 0)"
    by (simp add: in_bounds_def in_range_def lonely_grid_def)
  have n: "neighbours_of lonely_grid (0, 0) 7 = []" by code_simp
  show ?thesis
    using similarity_empty_neighbourhood_raises [OF w b n, of "1 / 3"] w b n by simp
qed

section \<open>Conservation of occupants\<close>

text \<open>
  C3: after any number of frames from the initial grid, the numbers of cells holding
  \<open>-1\<close>, \<open>1\<close> and \<open>0\<close> (Empty) are those of the initial grid; and a visit that changes the
  state moves the occupant of the visited cell to a cell that was Empty and leaves the
  visited cell Empty.
\<close>

theorem occupants_conserved:
  assumes "init_grid self U = Inr g0"
    and "steps self picks n (initial_state g0) = Inr s"
  shows "count_cells (grid s) (- 1) = count_cells g0 (- 1) \<and>
         count_cells (grid s) 1 = count_cells g0 1 \<and>
         count_cells (grid s) 0 = count_cells g0 0 \<and>
         wf_grid (grid s) \<and>
         (\<forall>s1 ij s2. wf_grid (grid s1) \<longrightarrow> in_bounds (grid s1) ij \<longrightarrow>
            visit self picks ij s1 = Inr s2 \<longrightarrow>
            (\<forall>v. count_cells (grid s2) v = count_cells (grid s1) v) \<and>
            (s2 = s1 \<or>
             (\<exists>dst. in_bounds (grid s1) dst \<and> cell (grid s1) dst = 0 \<and>
                    cell (grid s1) ij \<noteq> 0 \<and>
                    cell (grid s2) dst = cell (grid s1) ij \<and> cell (grid s2) ij = 0)))"
proof -
  have w0: "wf_grid (grid (initial_state g0))"
    using init_grid_wf [OF assms(1)] by (simp add: initial_state_def)
  have c: "\<And>v. count_cells (grid s) v = count_cells g0 v"
    using steps_counts [OF assms(2) w0] by (simp add: initial_state_def)
  have w: "wf_grid (grid s)" using steps_preserves [OF assms(2) w0] by simp
  have v: "\<forall>s1 ij s2. wf_grid (grid s1) \<longrightarrow> in_bounds (grid s1) ij \<longrightarrow>
            visit self picks ij s1 = Inr s2 \<longrightarrow>
            (\<forall>v. count_cells (grid s2) v = count_cells (grid s1) v) \<and>
            (s2 = s1 \<or>
             (\<exists>dst. in_bounds (grid s1) dst \<and> cell (grid s1) dst = 0 \<and>
                    cell (grid s1) ij \<noteq> 0 \<and>
                    cell (grid s2) dst = cell (grid s1) ij \<and> cell (grid s2) ij = 0))"
  proof (intro allI impI)
    fix s1 ij s2
    assume a: "wf_grid (grid s1)" and b: "in_bounds (grid s1) ij"
      and d: "visit self picks ij s1 = Inr s2"
    have "\<forall>v. count_cells (grid s2) v = count_cells (grid s1) v"
      using visit_preserves [OF d a] by (simp add: count_cells_def count_list_mset)
    then show "(\<forall>v. count_cells (grid s2) v = count_cells (grid s1) v) \<and>
            (s2 = s1 \<or>
             (\<exists>dst. in_bounds (grid s1) dst \<and> cell (grid s1) dst = 0 \<and>
                    cell (grid s1) ij \<noteq> 0 \<and>
                    cell (grid s2) dst = cell (grid s1) ij \<and> cell (grid s2) ij = 0))"
      using visit_relocation [OF d a b] by blast
  qed
  show ?thesis using c w v by blast
qed

theorem occupants_conserved_witness:
  "init_grid (fixture_model (1, 3) [1 / 3, 1 / 3, 1 / 3] 2) thirds_samples = Inr gap_grid \<and>
   steps (fixture_model (1, 3) [1 / 3, 1 / 3, 1 / 3] 2) (const_picks 0) 1 (initial_state gap_grid)
     = Inr \<lparr>grid = \<lparr>shape = (1, 3), data = [- 1, 1, 0]\<rparr>, rng = 3, frame = 1,
            shown = [(0, gap_grid)]\<rparr> \<and>
   count_cells \<lparr>shape = (1, 3), data = [- 1, 1, 0]\<rparr> (- 1) = count_cells gap_grid (- 1) \<and>
   count_cells \<lparr>shape = (1, 3), data = [- 1, 1, 0]\<rparr> 1 = count_cells gap_grid 1 \<and>
   count_cells \<lparr>shape = (1, 3), data = [- 1, 1, 0]\<rparr> 0 = count_cells gap_grid 0"
proof -
  have a: "init_grid (fixture_model (1, 3) [1 / 3, 1 / 3, 1 / 3] 2) thirds_samples = Inr gap_grid"
    by code_simp
  have b: "steps (fixture_model (1, 3) [1 / 3, 1 / 3, 1 / 3] 2) (const_picks 0) 1
             (initial_state gap_grid)
     = Inr \<lparr>grid = \<lparr>shape = (1, 3), data = [- 1, 1, 0]\<rparr>, rng = 3, frame = 1,
            shown = [(0, gap_grid)]\<rparr>"
    by code_simp
  show ?thesis using occupants_conserved [OF a b] a b by simp
qed

section \<open>Runs that cannot raise\<close>

lemma argwhere0_nonempty:
  assumes "wf_grid g" "0 \<in> set (data g)"
  shows "argwhere0 g \<noteq> []"
proof -
  let ?m = "fst (shape g)" and ?n = "snd (shape g)"
  from assms(2) obtain k where k: "k < length (data g)" and z: "data g ! k = 0"
    by (auto simp: in_set_conv_nth)
  have mn: "0 \<le> ?m" "0 \<le> ?n" "int (length (data g)) = ?m * ?n"
    using assms(1) by (simp_all add: wf_grid_def)
  have kl: "int k < ?m * ?n" using k mn by linarith
  have npos: "0 < ?n"
  proof (rule ccontr)
    assume "\<not> 0 < ?n" then have "?n = 0" using mn by simp
    then show False using kl by simp
  qed
  define c :: coord where "c = (int k div ?n, int k mod ?n)"
  have r1: "0 \<le> int k div ?n" using npos by (simp add: pos_imp_zdiv_nonneg_iff)
  have r2: "int k div ?n < ?m"
  proof (rule ccontr)
    assume "\<not> int k div ?n < ?m"
    then have "?m \<le> int k div ?n" by simp
    then have "?m * ?n \<le> (int k div ?n) * ?n" using npos by (intro mult_right_mono) auto
    moreover have "(int k div ?n) * ?n \<le> int k"
      using npos div_mult_mod_eq [of "int k" ?n] pos_mod_sign [of ?n "int k"] by linarith
    ultimately show False using kl by linarith
  qed
  have r3: "0 \<le> int k mod ?n \<and> int k mod ?n < ?n" using npos by simp
  have ib: "in_bounds g c" using r1 r2 r3 by (simp add: in_bounds_def in_range_def c_def)
  have "fst c * ?n + snd c = int k" by (simp add: c_def)
  then have "cell g c = 0" using z by (simp add: cell_def)
  then have "c \<in> set (argwhere0 g)" using ib by (simp add: argwhere0_mem)
  then show ?thesis by auto
qed

lemma argwhere0_empty:
  assumes "wf_grid g" "count_cells g 0 = 0"
  shows "argwhere0 g = []"
proof (rule ccontr)
  assume "argwhere0 g \<noteq> []"
  then obtain c where c: "c \<in> set (argwhere0 g)" by (cases "argwhere0 g") auto
  then have ib: "in_bounds g c" and cz: "cell g c = 0" by (simp_all add: argwhere0_mem)
  have "nat (fst c * snd (shape g) + snd c) < length (data g)"
    using flat_index_bound [OF assms(1) flat_index_in_bounds [OF ib]] .
  then have "0 \<in> set (data g)" using cz unfolding cell_def by (metis nth_mem)
  then show False using assms(2) by (simp add: count_cells_def count_list_0_iff)
qed

lemma neighbours_nonempty:
  assumes "1 \<le> r" "in_bounds g c" "2 \<le> fst (shape g) * snd (shape g)"
  shows "neighbours_of g c r \<noteq> []"
proof -
  let ?m = "fst (shape g)" and ?n = "snd (shape g)"
  have ib: "0 \<le> fst c" "fst c < ?m" "0 \<le> snd c" "snd c < ?n"
    using assms(2) by (simp_all add: in_bounds_def in_range_def)
  have "2 \<le> ?m \<or> 2 \<le> ?n"
  proof (rule ccontr)
    assume "\<not> (2 \<le> ?m \<or> 2 \<le> ?n)"
    then have "?m = 1" "?n = 1" using ib by auto
    then show False using assms(3) by simp
  qed
  then show ?thesis
  proof
    assume m2: "2 \<le> ?m"
    define d where "d = ((if fst c = 0 then 1 else fst c - 1), snd c)"
    have "d \<in> set (neighbours_of g c r)"
      using m2 ib assms(1) unfolding neighbours_of_def set_find_neighbors d_def
      by (cases c) (auto simp: in_range_def)
    then show ?thesis by auto
  next
    assume n2: "2 \<le> ?n"
    define d where "d = (fst c, (if snd c = 0 then 1 else snd c - 1))"
    have "d \<in> set (neighbours_of g c r)"
      using n2 ib assms(1) unfolding neighbours_of_def set_find_neighbors d_def
      by (cases c) (auto simp: in_range_def)
    then show ?thesis by auto
  qed
qed

lemma visit_runs:
  assumes "runnable self (grid s)" "in_bounds (grid s) ij"
  shows "\<exists>s'. visit self picks ij s = Inr s'"
proof -
  let ?g = "grid s"
  let ?sim = "similarity ?g ij (neighbor_size self) (neighbor_tol self)"
  have w: "wf_grid ?g" and z: "0 \<in> set (data ?g)" using assms(1) by (simp_all add: runnable_def)
  have v: "getitem ?g ij = Inr (cell ?g ij)" using getitem_in_bounds [OF assms(2)] .
  have r1: "1 \<le> neighbor_size self" using assms(1) by (simp add: runnable_def)
  have "shape ?g = size_hw self" "2 \<le> fst (size_hw self) * snd (size_hw self)"
    using assms(1) by (simp_all add: runnable_def)
  then have two: "2 \<le> fst (shape ?g) * snd (shape ?g)" by simp
  have nb: "neighbours_of ?g ij (neighbor_size self) \<noteq> []"
    using neighbours_nonempty [OF r1 assms(2) two] .
  have sim: "?sim = Inr (same_fraction ?g ij (neighbor_size self) < neighbor_tol self)"
    using nb by (simp add: similarity_in_bounds [OF assms(2)])
  show ?thesis
  proof (cases "cell ?g ij = 0")
    case True
    then show ?thesis using visit_empty [of s ij self picks] v by simp
  next
    case v0: False
    show ?thesis
    proof (cases "same_fraction ?g ij (neighbor_size self) < neighbor_tol self")
      case False
      then show ?thesis using visit_stay [OF v, of self picks] sim by simp
    next
      case True
      have simT: "?sim = Inr True" using sim True by simp
      have ne: "argwhere0 ?g \<noteq> []" using argwhere0_nonempty [OF w z] .
      define dst where "dst = argwhere0 ?g ! (picks (rng s) mod length (argwhere0 ?g))"
      have rc: "random_choice picks (rng s) (argwhere0 ?g) = Inr (dst, Suc (rng s))"
        using ne by (simp add: random_choice_def dst_def)
      have "dst \<in> set (argwhere0 ?g)" using random_choice_mem [OF rc] by simp
      then have ibd: "in_bounds ?g dst" by (simp add: argwhere0_mem)
      define g1 where "g1 = ?g\<lparr>data := (data ?g)[nat (fst dst * snd (shape ?g) + snd dst) := cell ?g ij]\<rparr>"
      have s1: "setitem ?g dst (cell ?g ij) = Inr g1"
        by (simp add: setitem_def flat_index_in_bounds [OF ibd] g1_def)
      have "shape g1 = shape ?g" by (simp add: g1_def)
      then have "in_bounds g1 ij" using assms(2) by (simp add: in_bounds_def)
      then have s2: "\<exists>g2. setitem g1 ij 0 = Inr g2"
        by (simp add: setitem_def flat_index_in_bounds)
      show ?thesis using visit_move [OF v v0 simT rc] s1 s2 by auto
    qed
  qed
qed

lemma visit_runnable:
  assumes "visit self picks ij s = Inr s'" "runnable self (grid s)"
  shows "runnable self (grid s')"
proof -
  have w: "wf_grid (grid s)" using assms(2) by (simp add: runnable_def)
  from visit_preserves [OF assms(1) w]
  have m: "mset (data (grid s')) = mset (data (grid s))"
    and sh: "shape (grid s') = shape (grid s)" and w': "wf_grid (grid s')" by simp_all
  have "set (data (grid s')) = set (data (grid s))" using m by (rule mset_eq_setD)
  then show ?thesis using assms(2) sh w' by (simp add: runnable_def)
qed

lemma sweep_cells_runs:
  "runnable self (grid s) \<Longrightarrow> \<forall>c \<in> set cs. in_bounds (grid s) c \<Longrightarrow>
   \<exists>s'. sweep_cells self picks cs s = Inr s' \<and> runnable self (grid s')"
proof (induction cs arbitrary: s)
  case Nil
  then show ?case by simp
next
  case (Cons c cs)
  have "in_bounds (grid s) c" using Cons.prems(2) by simp
  from visit_runs [OF Cons.prems(1) this]
  obtain s1 where v: "visit self picks c s = Inr s1" by blast
  have r1: "runnable self (grid s1)" using visit_runnable [OF v Cons.prems(1)] .
  have "shape (grid s1) = shape (grid s)"
    using r1 Cons.prems(1) by (simp add: runnable_def)
  then have "\<forall>c \<in> set cs. in_bounds (grid s1) c"
    using Cons.prems(2) by (simp add: in_bounds_def)
  from Cons.IH [OF r1 this] show ?case using v by simp
qed

lemma step_runs:
  assumes "runnable self (grid s)"
  shows "\<exists>s'. step self picks s = Inr s' \<and> runnable self (grid s')"
proof -
  define s1 where "s1 = render self s"
  have g1: "grid s1 = grid s" by (simp add: s1_def render_def)
  have r1: "runnable self (grid s1)" using assms g1 by simp
  have sz: "shape (grid s1) = size_hw self" using r1 by (simp add: runnable_def)
  have "\<forall>c \<in> set (row_major (fst (size_hw self)) (snd (size_hw self))). in_bounds (grid s1) c"
    using sz by (simp add: set_row_major in_bounds_def)
  from sweep_cells_runs [OF r1 this]
  obtain s2 where sw: "sweep_cells self picks
      (row_major (fst (size_hw self)) (snd (size_hw self))) s1 = Inr s2"
    and r2: "runnable self (grid s2)" by blast
  have ne: "show_every self \<noteq> 0" using assms by (simp add: runnable_def)
  have "step self picks s = Inr (s2\<lparr>frame := frame s2 + 1\<rparr>)"
    using sw ne unfolding step_def sweep_def s1_def by simp
  then show ?thesis using r2 by simp
qed

lemma steps_runs:
  "runnable self (grid s) \<Longrightarrow>
   \<exists>s'. steps self picks n s = Inr s' \<and> runnable self (grid s')"
proof (induction n arbitrary: s)
  case 0
  then show ?case by simp
next
  case (Suc n)
  from step_runs [OF Suc.prems] obtain s1 where a: "step self picks s = Inr s1"
    and r1: "runnable self (grid s1)" by blast
  from Suc.IH [OF r1] show ?case using a by simp
qed

section \<open>Termination of the run\<close>

lemma sweep_cells_append:
  "sweep_cells self picks (xs @ ys) s =
     (case sweep_cells self picks xs s of
        Inl e \<Rightarrow> Inl e
      | Inr s' \<Rightarrow> sweep_cells self picks ys s')"
  by (induction xs arbitrary: s) (simp_all split: sum.splits)

lemma run_loop_done: "\<not> frame s < max_frame self \<Longrightarrow> run_loop self picks s = Inr s"
  by (simp add: run_loop.simps)

lemma run_loop_error:
  "frame s < max_frame self \<Longrightarrow> step self picks s = Inl e \<Longrightarrow> run_loop self picks s = Inl e"
  by (simp add: run_loop.simps)

lemma run_steps:
  "run self U picks =
     (case init_grid self U of
        Inl e \<Rightarrow> Inl e
      | Inr g \<Rightarrow> steps self picks (nat (max_frame self)) (initial_state g))"
proof (cases "init_grid self U")
  case (Inl e)
  then show ?thesis by (simp add: run_def)
next
  case (Inr g)
  have "frame (initial_state g) = 0" by (simp add: initial_state_def)
  then have "run_loop self picks (initial_state g)
      = steps self picks (nat (max_frame self)) (initial_state g)"
    using run_loop_steps [of self picks "initial_state g"] by simp
  then show ?thesis using Inr by (simp add: run_def)
qed

text \<open>
  C9: a run is the initialization followed by exactly \<open>max_frame\<close> iterations of the
  loop body (none when \<open>max_frame\<close> is not positive), the first error aborting it; a run
  that returns has its frame counter at \<open>max_frame\<close> and the loop takes no further
  iteration from its final state; and a run from a runnable grid does return.
\<close>

theorem run_performs_max_frame_steps:
  "run self U picks =
     (case init_grid self U of
        Inl e \<Rightarrow> Inl e
      | Inr g \<Rightarrow> steps self picks (nat (max_frame self)) (initial_state g)) \<and>
   (\<forall>s. run self U picks = Inr s \<longrightarrow>
      frame s = max 0 (max_frame self) \<and> run_loop self picks s = Inr s) \<and>
   (\<forall>g. init_grid self U = Inr g \<longrightarrow> runnable self g \<longrightarrow> (\<exists>s. run self U picks = Inr s))"
proof (intro conjI allI impI)
  show "run self U picks =
     (case init_grid self U of
        Inl e \<Rightarrow> Inl e
      | Inr g \<Rightarrow> steps self picks (nat (max_frame self)) (initial_state g))"
    by (rule run_steps)
next
  fix s assume r: "run self U picks = Inr s"
  then obtain g where g: "init_grid self U = Inr g"
    and st: "steps self picks (nat (max_frame self)) (initial_state g) = Inr s"
    unfolding run_steps by (cases "init_grid self U") simp_all
  have "frame s = frame (initial_state g) + int (nat (max_frame self))"
    using steps_frame [OF st] .
  then show "frame s = max 0 (max_frame self)" by (simp add: initial_state_def max_def)
  then have "\<not> frame s < max_frame self" by simp
  then show "run_loop self picks s = Inr s" by (rule run_loop_done)
next
  fix g assume g: "init_grid self U = Inr g" and rn: "runnable self g"
  have "runnable self (grid (initial_state g))" using rn by (simp add: initial_state_def)
  from steps_runs [OF this, of picks "nat (max_frame self)"]
  show "\<exists>s. run self U picks = Inr s" unfolding run_steps using g by auto
qed

theorem run_performs_max_frame_steps_witness:
  "init_grid (fixture_model (1, 3) [1 / 3, 1 / 3, 1 / 3] 2) thirds_samples = Inr gap_grid \<and>
   runnable (fixture_model (1, 3) [1 / 3, 1 / 3, 1 / 3] 2) gap_grid \<and>
   run (fixture_model (1, 3) [1 / 3, 1 / 3, 1 / 3] 2) thirds_samples (const_picks 0)
     = Inr \<lparr>grid = \<lparr>shape = (1, 3), data = [1, - 1, 0]\<rparr>, rng = 6, frame = 2,
            shown = [(0, gap_grid)]\<rparr> \<and>
   run (fixture_model (1, 3) [1 / 3, 1 / 3, 1 / 3] 2) thirds_samples (const_picks 0)
     = steps (fixture_model (1, 3) [1 / 3, 1 / 3, 1 / 3] 2) (const_picks 0) 2
         (initial_state gap_grid)"
proof -
  have a: "init_grid (fixture_model (1, 3) [1 / 3, 1 / 3, 1 / 3] 2) thirds_samples = Inr gap_grid"
    by code_simp
  have b: "runnable (fixture_model (1, 3) [1 / 3, 1 / 3, 1 / 3] 2) gap_grid"
    by (simp add: runnable_def wf_grid_def gap_grid_def fixture_model_def)
  have c: "steps (fixture_model (1, 3) [1 / 3, 1 / 3, 1 / 3] 2) (const_picks 0) 2
             (initial_state gap_grid)
     = Inr \<lparr>grid = \<lparr>shape = (1, 3), data = [1, - 1, 0]\<rparr>, rng = 6, frame = 2,
            shown = [(0, gap_grid)]\<rparr>"
    by code_simp
  have d: "nat (max_frame (fixture_model (1, 3) [1 / 3, 1 / 3, 1 / 3] 2)) = 2"
    by (simp add: fixture_model_def)
  show ?thesis
    using run_performs_max_frame_steps
      [of "fixture_model (1, 3) [1 / 3, 1 / 3, 1 / 3] 2" thirds_samples "const_picks 0"] a b c d
    by simp
qed

section \<open>Relocation with no Empty cell\<close>

text \<open>
  C5, as the claim states it, fails: on a full grid the selection of a destination is
  attempted on the empty sequence of candidates, and the run ends with the IndexError of
  that selection.
\<close>

theorem relocation_without_empty_cell_counterexample:
  "init_grid (fixture_model (1, 2) [1 / 3, 0, 2 / 3] 2) thirds_samples = Inr full_grid \<and>
   count_cells full_grid 0 = 0 \<and>
   similarity full_grid (0, 0) 1 (1 / 2) = Inr True \<and>
   random_choice (const_picks 0) 0 (argwhere0 full_grid) = Inl IndexError \<and>
   run (fixture_model (1, 2) [1 / 3, 0, 2 / 3] 2) thirds_samples (const_picks 0) = Inl IndexError"
  by code_simp

text \<open>
  C5, amended: if, during the sweep of a frame, an occupied cell must relocate while no
  cell of the grid is Empty, \<open>random.choice\<close> is called on an empty sequence and raises
  IndexError; nothing catches it, so the visit, the frame and the run all end with that
  error.
\<close>

theorem relocation_without_empty_cell_raises:
  assumes "show_every self \<noteq> 0" and "frame s0 < max_frame self"
    and "row_major (fst (size_hw self)) (snd (size_hw self)) = pre @ ij # rest"
    and "sweep_cells self picks pre (render self s0) = Inr s"
    and "wf_grid (grid s)" and "count_cells (grid s) 0 = 0"
    and "getitem (grid s) ij = Inr v" and "v \<noteq> 0"
    and "similarity (grid s) ij (neighbor_size self) (neighbor_tol self) = Inr True"
  shows "visit self picks ij s = Inl IndexError \<and>
         step self picks s0 = Inl IndexError \<and>
         run_loop self picks s0 = Inl IndexError"
proof -
  have "argwhere0 (grid s) = []" using argwhere0_empty [OF assms(5) assms(6)] .
  then have "random_choice picks (rng s) (argwhere0 (grid s)) = Inl IndexError"
    by (simp add: random_choice_def)
  then have v: "visit self picks ij s = Inl IndexError"
    using visit_error_choice [OF assms(7) assms(8) assms(9)] by simp
  have "sweep self picks (render self s0) = Inl IndexError"
    unfolding sweep_def assms(3) sweep_cells_append using assms(4) v by simp
  then have st: "step self picks s0 = Inl IndexError"
    using assms(1) by (simp add: step_def)
  show ?thesis using v st run_loop_error [OF assms(2) st] by simp
qed

theorem relocation_without_empty_cell_raises_witness:
  "visit (fixture_model (1, 2) [1 / 3, 0, 2 / 3] 2) (const_picks 0) (0, 0)
     (render (fixture_model (1, 2) [1 / 3, 0, 2 / 3] 2) (initial_state full_grid)) = Inl IndexError \<and>
   step (fixture_model (1, 2) [1 / 3, 0, 2 / 3] 2) (const_picks 0) (initial_state full_grid)
     = Inl IndexError \<and>
   run_loop (fixture_model (1, 2) [1 / 3, 0, 2 / 3] 2) (const_picks 0) (initial_state full_grid)
     = Inl IndexError"
proof -
  let ?M = "fixture_model (1, 2) [1 / 3, 0, 2 / 3] 2"
  let ?s = "render ?M (initial_state full_grid)"
  have g: "grid ?s = full_grid" by (simp add: render_def initial_state_def)
  have h1: "show_every ?M \<noteq> 0" by (simp add: fixture_model_def)
  have h2: "frame (initial_state full_grid) < max_frame ?M"
    by (simp add: fixture_model_def initial_state_def)
  have h3: "row_major (fst (size_hw ?M)) (snd (size_hw ?M)) = [] @ (0, 0) # [(0, 1)]"
    by code_simp
  have h4: "sweep_cells ?M (const_picks 0) [] ?s = Inr ?s" by simp
  have h5: "wf_grid (grid ?s)" unfolding g by (simp add: wf_grid_def full_grid_def)
  have h6: "count_cells (grid ?s) 0 = 0" unfolding g by (simp add: count_cells_def full_grid_def)
  have h7: "getitem (grid ?s) (0, 0) = Inr (- 1)" unfolding g by code_simp
  have h8: "(- 1 :: int) \<noteq> 0" by simp
  have h9: "similarity (grid ?s) (0, 0) (neighbor_size ?M) (neighbor_tol ?M) = Inr True"
    unfolding g by code_simp
  show ?thesis
    using relocation_without_empty_cell_raises [OF h1 h2 h3 h4 h5 h6 h7 h8 h9] .
qed

section \<open>The sweep of a frame\<close>





lemma visit_changes:
  assumes "visit self picks ij s = Inr s'" "s' \<noteq> s"
  shows "\<exists>own dst g1 g2.
           getitem (grid s) ij = Inr own \<and> own \<noteq> 0 \<and>
           similarity (grid s) ij (neighbor_size self) (neighbor_tol self) = Inr True \<and>
           argwhere0 (grid s) \<noteq> [] \<and>
           dst = argwhere0 (grid s) ! (picks (rng s) mod length (argwhere0 (grid s))) \<and>
           in_bounds (grid s) dst \<and> cell (grid s) dst = 0 \<and>
           setitem (grid s) dst own = Inr g1 \<and> setitem g1 ij 0 = Inr g2 \<and>
           s' = s\<lparr>grid := g2, rng := Suc (rng s)\<rparr>"
proof -
  let ?g = "grid s"
  from visit_cases [OF assms(1)] assms(2)
  obtain dst kd ks where mem: "dst \<in> set (argwhere0 ?g)"
    and dst: "dst = argwhere0 ?g ! (picks (rng s) mod length (argwhere0 ?g))"
    and kd: "flat_index ?g dst = Inr kd" and ks: "flat_index ?g ij = Inr ks"
    and nz: "data ?g ! ks \<noteq> 0"
    and sim: "similarity ?g ij (neighbor_size self) (neighbor_tol self) = Inr True"
    and s': "s' = s\<lparr>grid := ?g\<lparr>data := (data ?g)[kd := data ?g ! ks, ks := 0]\<rparr>,
                   rng := Suc (rng s)\<rparr>"
    by blast
  define own where "own = data ?g ! ks"
  define g1 where "g1 = ?g\<lparr>data := (data ?g)[kd := own]\<rparr>"
  define g2 where "g2 = g1\<lparr>data := (data g1)[ks := 0]\<rparr>"
  have a1: "getitem ?g ij = Inr own" using ks by (simp add: getitem_def own_def)
  have a2: "own \<noteq> 0" using nz by (simp add: own_def)
  have a3: "argwhere0 ?g \<noteq> []" using mem by auto
  have a4: "in_bounds ?g dst" and a5: "cell ?g dst = 0" using mem by (simp_all add: argwhere0_mem)
  have a6: "setitem ?g dst own = Inr g1" using kd by (simp add: setitem_def g1_def)
  have "shape g1 = shape ?g" by (simp add: g1_def)
  then have "flat_index g1 ij = Inr ks" using ks flat_index_shape [of g1 ?g ij] by simp
  then have a7: "setitem g1 ij 0 = Inr g2" by (simp add: setitem_def g2_def)
  have a8: "s' = s\<lparr>grid := g2, rng := Suc (rng s)\<rparr>"
    using s' by (simp add: g2_def g1_def own_def)
  show ?thesis using a1 a2 sim a3 dst a4 a5 a6 a7 a8 by blast
qed












section \<open>Determinism\<close>

lemma visit_rng_mono: "visit self picks ij s = Inr s' \<Longrightarrow> rng s \<le> rng s'"
  using visit_cases [of self picks ij s s'] by auto

lemma sweep_cells_rng_mono: "sweep_cells self picks cs s = Inr s' \<Longrightarrow> rng s \<le> rng s'"
proof (induction cs arbitrary: s)
  case Nil
  then show ?case by simp
next
  case (Cons c cs)
  from Cons.prems obtain s1 where v: "visit self picks c s = Inr s1"
    and r: "sweep_cells self picks cs s1 = Inr s'"
    by (auto split: sum.splits)
  from visit_rng_mono [OF v] Cons.IH [OF r] show ?case by simp
qed

lemma step_rng_mono:
  assumes "step self picks s = Inr s'"
  shows "rng s \<le> rng s'"
proof -
  from assms obtain s2 where sw: "sweep_cells self picks
      (row_major (fst (size_hw self)) (snd (size_hw self))) (render self s) = Inr s2"
    and s': "s' = s2\<lparr>frame := frame s2 + 1\<rparr>"
    unfolding step_def sweep_def by (auto split: sum.splits if_splits)
  have "rng (render self s) = rng s" by (simp add: render_def)
  then show ?thesis using sweep_cells_rng_mono [OF sw] s' by simp
qed

lemma steps_rng_mono: "steps self picks n s = Inr s' \<Longrightarrow> rng s \<le> rng s'"
proof (induction n arbitrary: s)
  case 0
  then show ?case by simp
next
  case (Suc n)
  from Suc.prems obtain s1 where a: "step self picks s = Inr s1"
    and b: "steps self picks n s1 = Inr s'"
    by (auto split: sum.splits)
  from step_rng_mono [OF a] Suc.IH [OF b] show ?case by simp
qed

lemma visit_agree:
  assumes "visit self picks ij s = Inr s'"
    and "\<forall>k. rng s \<le> k \<and> k < rng s' \<longrightarrow> picks k = picks' k"
  shows "visit self picks' ij s = Inr s'"
proof (cases "s' = s")
  case True
  have "\<not> (\<exists>own. getitem (grid s) ij = Inr own \<and> own \<noteq> 0 \<and>
           similarity (grid s) ij (neighbor_size self) (neighbor_tol self) = Inr True)"
  proof
    assume "\<exists>own. getitem (grid s) ij = Inr own \<and> own \<noteq> 0 \<and>
           similarity (grid s) ij (neighbor_size self) (neighbor_tol self) = Inr True"
    then obtain own where v: "getitem (grid s) ij = Inr own" and v0: "own \<noteq> 0"
      and sim: "similarity (grid s) ij (neighbor_size self) (neighbor_tol self) = Inr True"
      by blast
    show False
    proof (cases "random_choice picks (rng s) (argwhere0 (grid s))")
      case (Inl e)
      then show False using visit_error_choice [OF v v0 sim Inl] assms(1) by simp
    next
      case (Inr dp)
      obtain dst pos where dp: "dp = (dst, pos)" by (cases dp)
      have pos: "pos = Suc (rng s)" using Inr dp random_choice_mem [of picks "rng s" _ dst pos] by simp
      have "rng s' = pos"
        using visit_move [OF v v0 sim, of picks dst pos] Inr dp assms(1)
        by (auto split: sum.splits)
      then show False using True pos by simp
    qed
  qed
  then have nomove: "\<And>own. getitem (grid s) ij = Inr own \<Longrightarrow> own \<noteq> 0 \<Longrightarrow>
      similarity (grid s) ij (neighbor_size self) (neighbor_tol self) \<noteq> Inr True" by blast
  show ?thesis
  proof (cases "getitem (grid s) ij")
    case (Inl e)
    then show ?thesis using visit_error_getitem [OF Inl, of self picks] assms(1) by simp
  next
    case (Inr v)
    show ?thesis
    proof (cases "v = 0")
      case v0: True
      then show ?thesis using visit_empty [of s ij self picks'] Inr True by simp
    next
      case v0: False
      show ?thesis
      proof (cases "similarity (grid s) ij (neighbor_size self) (neighbor_tol self)")
        case (Inl e)
        then show ?thesis using visit_error_similarity [OF Inr v0 Inl, of picks] assms(1) by simp
      next
        case sim: (Inr b)
        have "b = False" using nomove [OF Inr v0] sim by auto
        then show ?thesis using visit_stay [OF Inr, of self picks'] sim True by simp
      qed
    qed
  qed
next
  case False
  from visit_changes [OF assms(1) False]
  obtain own dst g1 g2 where v: "getitem (grid s) ij = Inr own" and v0: "own \<noteq> 0"
    and sim: "similarity (grid s) ij (neighbor_size self) (neighbor_tol self) = Inr True"
    and ne: "argwhere0 (grid s) \<noteq> []"
    and dst: "dst = argwhere0 (grid s) ! (picks (rng s) mod length (argwhere0 (grid s)))"
    and g1: "setitem (grid s) dst own = Inr g1" and g2: "setitem g1 ij 0 = Inr g2"
    and s': "s' = s\<lparr>grid := g2, rng := Suc (rng s)\<rparr>"
    by blast
  have "rng s' = Suc (rng s)" using s' by simp
  then have "picks (rng s) = picks' (rng s)" using assms(2) by simp
  then have rc: "random_choice picks' (rng s) (argwhere0 (grid s)) = Inr (dst, Suc (rng s))"
    using ne dst by (simp add: random_choice_def)
  show ?thesis using visit_move [OF v v0 sim rc] g1 g2 s' by simp
qed

lemma sweep_cells_agree:
  "sweep_cells self picks cs s = Inr s' \<Longrightarrow>
   \<forall>k. rng s \<le> k \<and> k < rng s' \<longrightarrow> picks k = picks' k \<Longrightarrow>
   sweep_cells self picks' cs s = Inr s'"
proof (induction cs arbitrary: s)
  case Nil
  then show ?case by simp
next
  case (Cons c cs)
  from Cons.prems(1) obtain s1 where v: "visit self picks c s = Inr s1"
    and r: "sweep_cells self picks cs s1 = Inr s'"
    by (auto split: sum.splits)
  have m1: "rng s \<le> rng s1" using visit_rng_mono [OF v] .
  have m2: "rng s1 \<le> rng s'" using sweep_cells_rng_mono [OF r] .
  have "\<forall>k. rng s \<le> k \<and> k < rng s1 \<longrightarrow> picks k = picks' k"
    using Cons.prems(2) m2 by auto
  then have v': "visit self picks' c s = Inr s1" using visit_agree [OF v] by blast
  have "\<forall>k. rng s1 \<le> k \<and> k < rng s' \<longrightarrow> picks k = picks' k"
    using Cons.prems(2) m1 by auto
  then have "sweep_cells self picks' cs s1 = Inr s'" using Cons.IH [OF r] by blast
  then show ?case using v' by simp
qed

lemma step_agree:
  assumes "step self picks s = Inr s'"
    and "\<forall>k. rng s \<le> k \<and> k < rng s' \<longrightarrow> picks k = picks' k"
  shows "step self picks' s = Inr s'"
proof -
  from assms(1) have ne: "show_every self \<noteq> 0" unfolding step_def by (auto split: if_splits)
  from assms(1) obtain s2 where sw: "sweep_cells self picks
      (row_major (fst (size_hw self)) (snd (size_hw self))) (render self s) = Inr s2"
    and s': "s' = s2\<lparr>frame := frame s2 + 1\<rparr>"
    unfolding step_def sweep_def by (auto split: sum.splits if_splits)
  have "rng (render self s) = rng s" "rng s2 = rng s'" using s' by (simp_all add: render_def)
  then have "\<forall>k. rng (render self s) \<le> k \<and> k < rng s2 \<longrightarrow> picks k = picks' k"
    using assms(2) by simp
  from sweep_cells_agree [OF sw this] show ?thesis
    using ne s' by (simp add: step_def sweep_def)
qed

lemma steps_agree:
  "steps self picks n s = Inr s' \<Longrightarrow>
   \<forall>k. rng s \<le> k \<and> k < rng s' \<longrightarrow> picks k = picks' k \<Longrightarrow>
   steps self picks' n s = Inr s'"
proof (induction n arbitrary: s)
  case 0
  then show ?case by simp
next
  case (Suc n)
  from Suc.prems(1) obtain s1 where a: "step self picks s = Inr s1"
    and b: "steps self picks n s1 = Inr s'"
    by (auto split: sum.splits)
  have m1: "rng s \<le> rng s1" using step_rng_mono [OF a] .
  have m2: "rng s1 \<le> rng s'" using steps_rng_mono [OF b] .
  have "\<forall>k. rng s \<le> k \<and> k < rng s1 \<longrightarrow> picks k = picks' k"
    using Suc.prems(2) m2 by auto
  then have a': "step self picks' s = Inr s1" using step_agree [OF a] by blast
  have "\<forall>k. rng s1 \<le> k \<and> k < rng s' \<longrightarrow> picks k = picks' k"
    using Suc.prems(2) m1 by auto
  then have "steps self picks' n s1 = Inr s'" using Suc.IH [OF b] by blast
  then show ?case using a' by simp
qed

lemma steps_add:
  "steps self picks (a + b) s =
     (case steps self picks a s of Inl e \<Rightarrow> Inl e | Inr s1 \<Rightarrow> steps self picks b s1)"
  by (induction a arbitrary: s) (simp_all split: sum.splits)

lemma steps_prefix:
  assumes "steps self picks n s = Inr s'" "m \<le> n"
  shows "\<exists>sm. steps self picks m s = Inr sm \<and> rng sm \<le> rng s'"
proof -
  have "steps self picks (m + (n - m)) s = Inr s'" using assms by simp
  then obtain sm where a: "steps self picks m s = Inr sm"
    and b: "steps self picks (n - m) sm = Inr s'"
    unfolding steps_add by (cases "steps self picks m s") simp_all
  show ?thesis using a steps_rng_mono [OF b] by blast
qed

lemma init_grid_agree:
  assumes "\<forall>k < nat (fst (size_hw self) * snd (size_hw self)). U k = U' k"
  shows "init_grid self U = init_grid self U'"
proof -
  have "map (\<lambda>k. searchsorted_right (cdf_of (prior_dist self)) (U k))
          [0..<nat (fst (size_hw self) * snd (size_hw self))]
      = map (\<lambda>k. searchsorted_right (cdf_of (prior_dist self)) (U' k))
          [0..<nat (fst (size_hw self) * snd (size_hw self))]"
    using assms by (intro map_cong) auto
  then have "np_random_choice 3 (size_hw self) (prior_dist self) U
      = np_random_choice 3 (size_hw self) (prior_dist self) U'"
    unfolding np_random_choice_def by simp
  then show ?thesis by (simp add: init_grid_def)
qed

text \<open>
  C8, as the claim states it, fails: the constructor takes no seed and \<open>run\<close> seeds
  neither generator, so the configuration is all that a caller fixes, and it does not fix
  the run. The same configuration, even from the same initial grid, ends in different grids
  under different destination draws; and it starts from different grids under different
  samples.
\<close>

theorem run_same_configuration_counterexample:
  "run (fixture_model (1, 4) [1 / 3, 1 / 3, 1 / 3] 1)
       (list_samples [0, 1 / 3, 1 / 3, 2 / 3]) (const_picks 0)
     = Inr \<lparr>grid = \<lparr>shape = (1, 4), data = [- 1, 1, 0, 0]\<rparr>, rng = 3, frame = 1,
            shown = [(0, two_gap_grid)]\<rparr> \<and>
   run (fixture_model (1, 4) [1 / 3, 1 / 3, 1 / 3] 1)
       (list_samples [0, 1 / 3, 1 / 3, 2 / 3]) (const_picks 1)
     = Inr \<lparr>grid = \<lparr>shape = (1, 4), data = [0, - 1, 1, 0]\<rparr>, rng = 3, frame = 1,
            shown = [(0, two_gap_grid)]\<rparr> \<and>
   init_grid (fixture_model (1, 4) [1 / 3, 1 / 3, 1 / 3] 1) (list_samples [0, 1 / 3, 1 / 3, 2 / 3])
     = Inr \<lparr>shape = (1, 4), data = [- 1, 0, 0, 1]\<rparr> \<and>
   init_grid (fixture_model (1, 4) [1 / 3, 1 / 3, 1 / 3] 1) (list_samples [2 / 3, 1 / 3, 1 / 3, 0])
     = Inr \<lparr>shape = (1, 4), data = [1, 0, 0, - 1]\<rparr>"
  by code_simp

text \<open>
  C8, amended: the outputs of the two process-wide generators (numpy's for the initial
  grid, \<open>random\<close>'s for the destinations) are the only inputs of a run besides the
  configuration. If a run returns, a second run with the same configuration, with uniform
  samples that agree on the cells of the grid and with destination draws that agree on the
  draws the first run consumed, returns the same state, and the two runs have the same
  state after every frame.
\<close>

theorem run_deterministic:
  assumes "\<forall>k < nat (fst (size_hw self) * snd (size_hw self)). U k = U' k"
    and "run self U picks = Inr s"
    and "\<forall>k < rng s. picks k = picks' k"
  shows "run self U' picks' = Inr s \<and>
         (\<exists>g. init_grid self U = Inr g \<and> init_grid self U' = Inr g \<and>
            (\<forall>n \<le> nat (max_frame self).
               \<exists>sn. steps self picks n (initial_state g) = Inr sn \<and>
                    steps self picks' n (initial_state g) = Inr sn))"
proof -
  from assms(2) obtain g where g: "init_grid self U = Inr g"
    and st: "steps self picks (nat (max_frame self)) (initial_state g) = Inr s"
    unfolding run_steps by (cases "init_grid self U") simp_all
  have g': "init_grid self U' = Inr g" using init_grid_agree [OF assms(1)] g by simp
  have all: "\<forall>n \<le> nat (max_frame self).
               \<exists>sn. steps self picks n (initial_state g) = Inr sn \<and>
                    steps self picks' n (initial_state g) = Inr sn"
  proof (intro allI impI)
    fix n assume n: "n \<le> nat (max_frame self)"
    from steps_prefix [OF st n] obtain sn where
      a: "steps self picks n (initial_state g) = Inr sn" and le: "rng sn \<le> rng s" by blast
    have "\<forall>k. rng (initial_state g) \<le> k \<and> k < rng sn \<longrightarrow> picks k = picks' k"
      using assms(3) le by auto
    from steps_agree [OF a this] a
    show "\<exists>sn. steps self picks n (initial_state g) = Inr sn \<and>
                    steps self picks' n (initial_state g) = Inr sn" by blast
  qed
  have "\<forall>k. rng (initial_state g) \<le> k \<and> k < rng s \<longrightarrow> picks k = picks' k"
    using assms(3) by auto
  from steps_agree [OF st this] have "run self U' picks' = Inr s"
    unfolding run_steps using g' by simp
  then show ?thesis using g g' all by blast
qed

theorem run_deterministic_witness:
  "run (fixture_model (1, 4) [1 / 3, 1 / 3, 1 / 3] 2)
       (list_samples [0, 1 / 3, 1 / 3, 2 / 3]) (list_picks [1, 0, 1, 1, 0, 1])
     = Inr \<lparr>grid = \<lparr>shape = (1, 4), data = [1, 0, - 1, 0]\<rparr>, rng = 6, frame = 2,
            shown = [(0, two_gap_grid)]\<rparr> \<and>
   run (fixture_model (1, 4) [1 / 3, 1 / 3, 1 / 3] 2)
       (list_samples [0, 1 / 3, 1 / 3, 2 / 3, 1 / 2]) (list_picks [1, 0, 1, 1, 0, 1, 5, 6])
     = Inr \<lparr>grid = \<lparr>shape = (1, 4), data = [1, 0, - 1, 0]\<rparr>, rng = 6, frame = 2,
            shown = [(0, two_gap_grid)]\<rparr> \<and>
   list_samples [0, 1 / 3, 1 / 3, 2 / 3] 4 \<noteq> list_samples [0, 1 / 3, 1 / 3, 2 / 3, 1 / 2] 4 \<and>
   list_picks [1, 0, 1, 1, 0, 1] 6 \<noteq> list_picks [1, 0, 1, 1, 0, 1, 5, 6] 6"
proof -
  let ?M = "fixture_model (1, 4) [1 / 3, 1 / 3, 1 / 3] 2"
  let ?S = "\<lparr>grid = \<lparr>shape = (1, 4), data = [1, 0, - 1, 0]\<rparr>, rng = 6, frame = 2,
            shown = [(0, two_gap_grid)]\<rparr>"
  have four: "\<And>k. k < 4 \<Longrightarrow> k = 0 \<or> k = 1 \<or> k = 2 \<or> k = (3::nat)" by arith
  have six: "\<And>k. k < 6 \<Longrightarrow> k = 0 \<or> k = 1 \<or> k = 2 \<or> k = 3 \<or> k = 4 \<or> k = (5::nat)" by arith
  have h1: "\<forall>k < nat (fst (size_hw ?M) * snd (size_hw ?M)).
              list_samples [0, 1 / 3, 1 / 3, 2 / 3] k = list_samples [0, 1 / 3, 1 / 3, 2 / 3, 1 / 2] k"
  proof (intro allI impI)
    fix k assume "k < nat (fst (size_hw ?M) * snd (size_hw ?M))"
    then have "k < 4" by (simp add: fixture_model_def)
    from four [OF this]
    show "list_samples [0, 1 / 3, 1 / 3, 2 / 3] k = list_samples [0, 1 / 3, 1 / 3, 2 / 3, 1 / 2] k"
      by (auto simp: list_samples_def)
  qed
  have h2: "run ?M (list_samples [0, 1 / 3, 1 / 3, 2 / 3]) (list_picks [1, 0, 1, 1, 0, 1]) = Inr ?S"
    by code_simp
  have h3: "\<forall>k < rng ?S. list_picks [1, 0, 1, 1, 0, 1] k = list_picks [1, 0, 1, 1, 0, 1, 5, 6] k"
  proof (intro allI impI)
    fix k assume "k < rng ?S"
    then have "k < 6" by simp
    from six [OF this]
    show "list_picks [1, 0, 1, 1, 0, 1] k = list_picks [1, 0, 1, 1, 0, 1, 5, 6] k"
      by (auto simp: list_picks_def)
  qed
  have d1: "list_samples [0, 1 / 3, 1 / 3, 2 / 3] 4 \<noteq> list_samples [0, 1 / 3, 1 / 3, 2 / 3, 1 / 2] 4"
    by (simp add: list_samples_def)
  have d2: "list_picks [1, 0, 1, 1, 0, 1] 6 \<noteq> list_picks [1, 0, 1, 1, 0, 1, 5, 6] 6"
    by (simp add: list_picks_def)
  show ?thesis using run_deterministic [OF h1 h2 h3] h2 d1 d2 by simp
qed

section \<open>Initialization\<close>

lemma cdf_of_three:
  assumes "a + b + c = 1"
  shows "cdf_of [a, b, c] = [a, a + b, 1]"
  using assms by (simp add: cdf_of_def Let_def)

lemma searchsorted_three:
  assumes "0 \<le> a" "0 \<le> b" "0 \<le> u" "u < 1"
  shows "searchsorted_right [a, a + b, 1] u = (if u < a then 0 else if u < a + b then 1 else 2)"
  using assms by (auto simp: searchsorted_right_def)

lemma init_grid_three:
  assumes "prior_dist self = [a, b, c]" "0 \<le> a" "0 \<le> b" "0 \<le> c" "a + b + c = 1"
    and "0 \<le> fst (size_hw self)" "0 \<le> snd (size_hw self)"
    and "\<forall>k. 0 \<le> U k \<and> U k < 1"
  shows "init_grid self U =
           Inr \<lparr>shape = size_hw self,
                data = map (\<lambda>k. if U k < a then - 1 else if U k < a + b then 0 else 1)
                         [0..<nat (fst (size_hw self) * snd (size_hw self))]\<rparr>"
proof -
  have s: "sum_list [a, b, c] = 1" using assms(5) by simp
  have e: "\<And>k. searchsorted_right (cdf_of [a, b, c]) (U k) - 1
       = (if U k < a then - 1 else if U k < a + b then 0 else 1)"
    using assms(8) by (simp add: cdf_of_three [OF assms(5)] searchsorted_three [OF assms(2,3)])
  have nc: "np_random_choice 3 (size_hw self) [a, b, c] U =
      Inr \<lparr>shape = size_hw self,
           data = map (\<lambda>k. searchsorted_right (cdf_of [a, b, c]) (U k))
                      [0..<nat (fst (size_hw self) * snd (size_hw self))]\<rparr>"
    unfolding np_random_choice_def using assms(2,3,4,6,7) s by auto
  show ?thesis unfolding init_grid_def assms(1) nc by (simp add: e comp_def)
qed

text \<open>A run on a grid of Empty cells.\<close>

lemma visit_all_empty:
  assumes "wf_grid (grid s)" "\<forall>v \<in> set (data (grid s)). v = 0" "in_bounds (grid s) ij"
  shows "visit self picks ij s = Inr s"
proof -
  have "nat (fst ij * snd (shape (grid s)) + snd ij) < length (data (grid s))"
    using flat_index_bound [OF assms(1) flat_index_in_bounds [OF assms(3)]] .
  then have "cell (grid s) ij = 0" using assms(2) by (simp add: cell_def)
  then have "getitem (grid s) ij = Inr 0" using getitem_in_bounds [OF assms(3)] by simp
  then show ?thesis by (rule visit_empty)
qed

lemma sweep_cells_all_empty:
  assumes "wf_grid (grid s)" "\<forall>v \<in> set (data (grid s)). v = 0"
  shows "\<forall>c \<in> set cs. in_bounds (grid s) c \<Longrightarrow> sweep_cells self picks cs s = Inr s"
  by (induction cs) (simp_all add: visit_all_empty [OF assms])

lemma step_all_empty:
  assumes "wf_grid (grid s)" "\<forall>v \<in> set (data (grid s)). v = 0"
    and "shape (grid s) = size_hw self" "show_every self \<noteq> 0"
  shows "step self picks s = Inr ((render self s)\<lparr>frame := frame s + 1\<rparr>)"
proof -
  let ?s1 = "render self s"
  have g: "grid ?s1 = grid s" and f: "frame ?s1 = frame s" by (simp_all add: render_def)
  have "\<forall>c \<in> set (row_major (fst (size_hw self)) (snd (size_hw self))). in_bounds (grid ?s1) c"
    unfolding g using assms(3) by (simp add: set_row_major in_bounds_def)
  then have "sweep self picks ?s1 = Inr ?s1"
    unfolding sweep_def using sweep_cells_all_empty [of ?s1] assms(1,2) g by simp
  then show ?thesis using assms(4) f by (simp add: step_def)
qed

lemma steps_all_empty:
  "wf_grid (grid s) \<Longrightarrow> \<forall>v \<in> set (data (grid s)). v = 0 \<Longrightarrow>
   shape (grid s) = size_hw self \<Longrightarrow> show_every self \<noteq> 0 \<Longrightarrow>
   \<exists>s'. steps self picks n s = Inr s' \<and> grid s' = grid s \<and> rng s' = rng s \<and>
        frame s' = frame s + int n"
proof (induction n arbitrary: s)
  case 0
  then show ?case by simp
next
  case (Suc n)
  let ?s1 = "(render self s)\<lparr>frame := frame s + 1\<rparr>"
  have st: "step self picks s = Inr ?s1" using step_all_empty [OF Suc.prems] .
  have g: "grid ?s1 = grid s" and r: "rng ?s1 = rng s" and f: "frame ?s1 = frame s + 1"
    by (simp_all add: render_def)
  have "\<exists>s'. steps self picks n ?s1 = Inr s' \<and> grid s' = grid ?s1 \<and> rng s' = rng ?s1 \<and>
        frame s' = frame ?s1 + int n"
    using Suc.prems unfolding g [symmetric] by (intro Suc.IH) simp_all
  then show ?case using st g r f by auto
qed

text \<open>
  C1, as the claim states it, fails: \<open>prior_dist = [1, 0, 0]\<close> fills the grid with the
  occupant \<open>-1\<close>, since the index drawn is shifted by \<open>-1\<close>; no cell is Empty.
\<close>

theorem init_grid_all_occupied_counterexample:
  "init_grid (fixture_model (2, 2) [1, 0, 0] 2) (const_samples (1 / 2))
     = Inr \<lparr>shape = (2, 2), data = [- 1, - 1, - 1, - 1]\<rparr> \<and>
   count_cells \<lparr>shape = (2, 2), data = [- 1, - 1, - 1, - 1]\<rparr> 0 = 0 \<and>
   count_cells \<lparr>shape = (2, 2), data = [- 1, - 1, - 1, - 1]\<rparr> (- 1) = 4"
  by code_simp

text \<open>
  C1, amended: each cell is drawn from its own uniform sample by the categorical
  distribution \<open>prior_dist\<close> in the order \<open>[-1, 0, 1]\<close>, so \<open>prior_dist[1]\<close> is the
  probability of Empty; \<open>prior_dist = [0, 1, 0]\<close> gives a grid with no occupant, and a run
  on it with a cadence that is not zero completes all its frames with the grid unchanged,
  no destination drawn and no error.
\<close>

theorem init_grid_categorical_order:
  assumes "prior_dist self = [a, b, c]" and "0 \<le> a" and "0 \<le> b" and "0 \<le> c"
    and "a + b + c = 1"
    and "0 \<le> fst (size_hw self)" and "0 \<le> snd (size_hw self)"
    and "\<forall>k. 0 \<le> U k \<and> U k < 1"
  shows "\<exists>g. init_grid self U = Inr g \<and> shape g = size_hw self \<and>
           length (data g) = nat (fst (size_hw self) * snd (size_hw self)) \<and>
           (\<forall>k < length (data g).
              data g ! k = (if U k < a then - 1 else if U k < a + b then 0 else 1)) \<and>
           (a = 0 \<and> b = 1 \<and> show_every self \<noteq> 0 \<longrightarrow>
              count_cells g 0 = length (data g) \<and>
              (\<exists>s. run self U picks = Inr s \<and> grid s = g \<and> rng s = 0 \<and>
                   frame s = max 0 (max_frame self)))"
proof -
  let ?n = "nat (fst (size_hw self) * snd (size_hw self))"
  define g where "g = \<lparr>shape = size_hw self,
                data = map (\<lambda>k. if U k < a then - 1 else if U k < a + b then (0::int) else 1)
                         [0..<?n]\<rparr>"
  have i: "init_grid self U = Inr g" unfolding g_def by (rule init_grid_three [OF assms])
  have sh: "shape g = size_hw self" and len: "length (data g) = ?n" by (simp_all add: g_def)
  have cells: "\<forall>k < length (data g).
              data g ! k = (if U k < a then - 1 else if U k < a + b then 0 else 1)"
    by (simp add: g_def)
  have w: "wf_grid g" using init_grid_wf [OF i] by simp
  have empty: "a = 0 \<and> b = 1 \<and> show_every self \<noteq> 0 \<longrightarrow>
              count_cells g 0 = length (data g) \<and>
              (\<exists>s. run self U picks = Inr s \<and> grid s = g \<and> rng s = 0 \<and>
                   frame s = max 0 (max_frame self))"
  proof
    assume h: "a = 0 \<and> b = 1 \<and> show_every self \<noteq> 0"
    have "\<And>k. \<not> U k < 0 \<and> U k < 1" using assms(8) by (simp add: not_less)
    then have z: "\<forall>v \<in> set (data g). v = 0" using h by (auto simp: g_def)
    then have "filter ((=) 0) (data g) = data g" by (auto simp: filter_id_conv)
    then have c: "count_cells g 0 = length (data g)"
      by (simp add: count_cells_def count_list_eq_length_filter)
    from steps_all_empty [of "initial_state g" self picks "nat (max_frame self)"] w z sh h
    obtain s where "steps self picks (nat (max_frame self)) (initial_state g) = Inr s"
      "grid s = g" "rng s = 0" "frame s = int (nat (max_frame self))"
      by (auto simp: initial_state_def)
    then have "run self U picks = Inr s \<and> grid s = g \<and> rng s = 0 \<and>
                   frame s = max 0 (max_frame self)"
      unfolding run_steps using i by (simp add: max_def)
    then show "count_cells g 0 = length (data g) \<and>
              (\<exists>s. run self U picks = Inr s \<and> grid s = g \<and> rng s = 0 \<and>
                   frame s = max 0 (max_frame self))" using c by blast
  qed
  show ?thesis using i sh len cells empty by blast
qed

theorem init_grid_categorical_order_witness:
  "init_grid (fixture_model (2, 2) [0, 1, 0] 2) (const_samples (1 / 2))
     = Inr \<lparr>shape = (2, 2), data = [0, 0, 0, 0]\<rparr> \<and>
   (\<exists>s. run (fixture_model (2, 2) [0, 1, 0] 2) (const_samples (1 / 2)) (const_picks 0) = Inr s \<and>
        grid s = \<lparr>shape = (2, 2), data = [0, 0, 0, 0]\<rparr> \<and> rng s = 0 \<and> frame s = 2)"
proof -
  let ?M = "fixture_model (2, 2) [0, 1, 0] 2"
  have h1: "prior_dist ?M = [0, 1, 0]" by (simp add: fixture_model_def)
  have h2: "(0::rat) \<le> 0" by simp
  have h3: "(0::rat) \<le> 1" by simp
  have h5: "(0::rat) + 1 + 0 = 1" by simp
  have h6: "0 \<le> fst (size_hw ?M)" by (simp add: fixture_model_def)
  have h7: "0 \<le> snd (size_hw ?M)" by (simp add: fixture_model_def)
  have h8: "\<forall>k. 0 \<le> const_samples (1 / 2) k \<and> const_samples (1 / 2) k < 1"
    by (simp add: const_samples_def)
  have i: "init_grid ?M (const_samples (1 / 2)) = Inr \<lparr>shape = (2, 2), data = [0, 0, 0, 0]\<rparr>"
    by code_simp
  have se: "show_every ?M \<noteq> 0" "max_frame ?M = 2" by (simp_all add: fixture_model_def)
  from init_grid_categorical_order [OF h1 h2 h3 h2 h5 h6 h7 h8, of "const_picks 0"] i se
  show ?thesis by auto
qed

end
